theory Spec2Isabelle
  imports Main "HOL-Library.Sublist"
begin

section \<open>Strings of the source\<close>

text \<open>
  A JavaScript string is modelled as a \<open>string\<close>, a list of 8-bit code units. The
  regular expressions of the source only tell ASCII digits, dashes and white space from
  everything else, so each of them is a \<open>filter\<close> over the code units.
\<close>

definition isDigit :: "char \<Rightarrow> bool" where
  \<comment> \<open>the class \<open>\d\<close>: the ten ASCII digits\<close>
  "isDigit c = (c \<in> set ''0123456789'')"

definition isSpace :: "char \<Rightarrow> bool" where
  \<comment> \<open>the class \<open>\s\<close>, which is also what \<open>trim\<close> removes: tab, line feed, vertical tab,
      form feed, carriage return, space and the no-break space\<close>
  "isSpace c = (c \<in> {CHR 0x09, CHR 0x0A, CHR 0x0B, CHR 0x0C, CHR 0x0D, CHR 0x20, CHR 0xA0})"

definition startsWith :: "string \<Rightarrow> string \<Rightarrow> bool" where
  "startsWith s p = prefix p s"

definition trim :: "string \<Rightarrow> string" where
  "trim s = rev (dropWhile isSpace (rev (dropWhile isSpace s)))"

definition orElse :: "string option \<Rightarrow> string \<Rightarrow> string" where
  \<comment> \<open>\<open>x || d\<close> on an optional string: \<open>undefined\<close> and the empty string are falsy\<close>
  "orElse x d = (case x of None \<Rightarrow> d | Some s \<Rightarrow> if s = [] then d else s)"

definition truthy :: "string option \<Rightarrow> bool" where
  "truthy x = (case x of None \<Rightarrow> False | Some s \<Rightarrow> s \<noteq> [])"

section \<open>Phone numbers and the dispatch (src/server/services/bolna.ts)\<close>

definition validatePhoneNumber :: "string \<Rightarrow> bool" where
  "validatePhoneNumber phone =
     (let cleaned = filter isDigit phone in
      if length cleaned < 10 \<or> length cleaned > 15 then False
      else (case cleaned of
              [] \<Rightarrow> False
            | c # rest \<Rightarrow> c \<in> set ''123456789'' \<and> list_all isDigit rest
                           \<and> 9 \<le> length rest \<and> length rest \<le> 14))"

definition formatPhoneNumber :: "string \<Rightarrow> string" where
  "formatPhoneNumber phone =
     (let cleaned = filter isDigit phone in
      if \<not> startsWith phone ''+'' then
        (if length cleaned = 10 then ''+91'' @ cleaned else ''+'' @ cleaned)
      else ''+'' @ cleaned)"

definition recipient_phone_number :: "string \<Rightarrow> string" where
  \<comment> \<open>the normalisation \<open>triggerOutboundCall\<close> applies to its \<open>phone\<close> argument before the
      request: trim, drop white space and dashes, then add a prefix when no \<open>+\<close> leads\<close>
  "recipient_phone_number phone =
     (let formattedPhone = filter (\<lambda>c. \<not> (isSpace c \<or> c = CHR ''-'')) (trim phone) in
      if \<not> startsWith formattedPhone ''+'' then
        (if length formattedPhone = 10 then ''+91'' @ formattedPhone
         else ''+'' @ formattedPhone)
      else formattedPhone)"

record BolnaCallResponse =
  success :: bool
  callId :: "string option"
  message :: "string option"
  error :: "string option"

text \<open>
  What \<open>axios.post\<close> can do: resolve with a body (its \<open>execution_id\<close>, its \<open>call_id\<close> and
  its JSON text), or reject with an error that carries a response (status as printed, the
  body's \<open>message || error\<close>, the body's JSON text), a request without response, or
  neither (only a message).
\<close>

datatype axios_result =
    AxiosData "string option" "string option" string
  | AxiosErrorResponse string "string option" string
  | AxiosNoResponse
  | AxiosSetupError string

record 'm bolna_env =
  BOLNA_API_KEY :: "string option"
  BOLNA_AGENT_ID :: "string option"
  MOCK_BOLNA_CALLS :: "string option"
  mockCallId :: string
  axios_post :: "string \<Rightarrow> string \<Rightarrow> string \<Rightarrow> string \<Rightarrow> 'm \<Rightarrow> axios_result"

definition triggerOutboundCall_catch :: "axios_result \<Rightarrow> BolnaCallResponse" where
  \<comment> \<open>the \<open>catch\<close> block of \<open>triggerOutboundCall\<close>, for a rejected request\<close>
  "triggerOutboundCall_catch r =
     \<lparr>success = False, callId = None, message = None,
      error = Some (case r of
          AxiosErrorResponse st apiError js \<Rightarrow>
            (if truthy apiError then ''API Error ('' @ st @ ''): '' @ the apiError
             else ''API Error ('' @ st @ ''): '' @ js)
        | AxiosNoResponse \<Rightarrow> ''No response from Bolna API server''
        | AxiosSetupError msg \<Rightarrow> ''Request setup error: '' @ msg
        | AxiosData _ _ _ \<Rightarrow> ''Failed to initiate call'')\<rparr>"

definition triggerOutboundCall ::
  "'m bolna_env \<Rightarrow> string \<Rightarrow> string \<Rightarrow> string \<Rightarrow> 'm \<Rightarrow> BolnaCallResponse" where
  "triggerOutboundCall env phone contactName userId additionalMetadata =
     (let agentId = orElse (BOLNA_AGENT_ID env) ''default-agent-id'' in
      if \<not> truthy (BOLNA_API_KEY env) then
        triggerOutboundCall_catch
          (AxiosSetupError ''BOLNA_API_KEY is not configured in environment variables'')
      else if agentId = ''your-bolna-agent-id-here'' \<or> agentId = ''default-agent-id'' then
        triggerOutboundCall_catch
          (AxiosSetupError (''BOLNA_AGENT_ID is not configured. Please add your Bolna Agent ID''
             @ '' to .env.local file. Get it from https://app.bolna.dev''))
      else if MOCK_BOLNA_CALLS env = Some ''true'' then
        \<lparr>success = True, callId = Some (mockCallId env),
         message = Some ''Call initiated successfully (MOCK)'', error = None\<rparr>
      else
        (case axios_post env agentId (recipient_phone_number phone) userId contactName
                additionalMetadata of
           AxiosData execution_id call_id js \<Rightarrow>
             (if truthy execution_id \<or> truthy call_id then
                \<lparr>success = True,
                 callId = (if truthy execution_id then execution_id else call_id),
                 message = Some ''Call initiated successfully'', error = None\<rparr>
              else
                \<lparr>success = False, callId = None, message = None,
                 error = Some (''Unexpected response format from Bolna API: '' @ js)\<rparr>)
         | r \<Rightarrow> triggerOutboundCall_catch r))"

section \<open>The data: queue entries and parsed contacts\<close>

text \<open>
  A queue entry (\<open>IBulkCallQueue\<close>) carries the contact fields of a parsed contact
  (\<open>ParsedContact\<close>), so the entry record extends the contact record. \<open>entryId\<close> stands
  for \<open>_id\<close>, \<open>notes'\<close> for \<open>notes\<close>, and times are milliseconds. The interaction
  snapshot (\<open>transcript\<close>, \<open>recordingUrl\<close>, ...) is written by the detail route only
  and is left out, as is \<open>metadata\<close>, which nothing writes. The schema has
  \<open>timestamps: true\<close>: an insert sets \<open>createdAt\<close> and \<open>updatedAt\<close>, and every save
  and every \<open>updateMany\<close> sets \<open>updatedAt\<close> again (\<open>stamp\<close>). Its setters lower-case
  the email; the \<open>trim\<close> setters are left out, since the extractor hands over trimmed
  fields.
\<close>

datatype status = pending | processing | completed | failed

record ParsedContact =
  name :: string
  phone :: string
  city :: "string option"
  email :: "string option"
  notes' :: "string option"

record IBulkCallQueue = ParsedContact +
  entryId :: nat
  userId :: string
  status :: status
  bolnaCallId :: "string option"
  errorMessage :: "string option"
  callAttempts :: nat
  lastAttemptAt :: "nat option"
  createdAt :: nat
  updatedAt :: nat

definition stamp :: "IBulkCallQueue \<Rightarrow> nat \<Rightarrow> IBulkCallQueue" where
  \<comment> \<open>what \<open>timestamps: true\<close> does to a document that is written at time \<open>now\<close>\<close>
  "stamp doc now = doc\<lparr>updatedAt := now\<rparr>"

definition toLowerCase :: "string \<Rightarrow> string" where
  \<comment> \<open>on 8-bit code units: the letters A to Z and the capital letters of Latin-1 become
      the code unit 32 above, which is the same unit with bit 5 set\<close>
  "toLowerCase s =
     map (\<lambda>c. let n = (of_char c :: nat)
              in if (65 \<le> n \<and> n \<le> 90) \<or> (192 \<le> n \<and> n \<le> 222 \<and> n \<noteq> 215)
                 then (case c of Char b0 b1 b2 b3 b4 b5 b6 b7 \<Rightarrow> Char b0 b1 b2 b3 b4 True b6 b7)
                 else c) s"

record ParseResult =
  parse_success :: bool
  contacts :: "ParsedContact list"
  errors :: "string list"
  totalRows :: nat
  validRows :: nat

type_synonym metadata = "string option \<times> string option \<times> string option"

section \<open>The queue processor (\<open>processCallQueue\<close>)\<close>

text \<open>
  The processor runs against three collaborators, each an oracle indexed by the number of
  calls made so far (\<open>ticks\<close>): the store's \<open>find\<close> and \<open>save\<close>, which either work or
  throw an error with a message, and the imported \<open>triggerOutboundCall\<close> with the
  environment of that moment, which returns a response after some time (\<open>Inr\<close>) or,
  for generality, throws (\<open>Inl\<close>). Everything the run does is recorded in a trace.
  Of the three counters of the source only \<open>processedCount\<close> is kept: \<open>successCount\<close>
  and \<open>failedCount\<close> are printed at the end and read nowhere else.
\<close>

record env =
  dispatch :: "nat \<Rightarrow> string \<Rightarrow> string \<Rightarrow> string \<Rightarrow> metadata \<Rightarrow> string + BolnaCallResponse"
  dispatchMs :: "nat \<Rightarrow> nat"
  saveError :: "nat \<Rightarrow> string option"
  findError :: "nat \<Rightarrow> string option"

datatype event =
    Fetched nat
  | FetchFailed string
  | Saved IBulkCallQueue
  | SaveFailed IBulkCallQueue string
  | Dispatched nat string string string metadata
  | Delayed nat

record state =
  store :: "IBulkCallQueue list"
  activeProcessors :: "string \<rightharpoonup> bool"
  clock :: nat
  ticks :: nat
  trace :: "event list"

definition CALL_DELAY :: nat where
  "CALL_DELAY = 2000"

definition MAX_CONCURRENT_CALLS :: nat where
  "MAX_CONCURRENT_CALLS = 5"

definition delay :: "nat \<Rightarrow> state \<Rightarrow> state" where
  "delay ms st = st\<lparr>clock := clock st + ms, trace := trace st @ [Delayed ms]\<rparr>"

definition isPendingOf :: "string \<Rightarrow> IBulkCallQueue \<Rightarrow> bool" where
  \<comment> \<open>the filter \<open>{ userId, status: 'pending' }\<close>\<close>
  "isPendingOf uid e = (userId e = uid \<and> status e = pending)"

definition findPending :: "env \<Rightarrow> string \<Rightarrow> state \<Rightarrow> (string + IBulkCallQueue list) \<times> state" where
  \<comment> \<open>\<open>BulkCallQueue.find({userId, status: 'pending'}).sort({createdAt: 1}).limit(5)\<close>\<close>
  "findPending env uid st =
     (case findError env (ticks st) of
        Some msg \<Rightarrow>
          (Inl msg, st\<lparr>ticks := Suc (ticks st), trace := trace st @ [FetchFailed msg]\<rparr>)
      | None \<Rightarrow>
          (let pendingCalls =
                 take MAX_CONCURRENT_CALLS (sort_key createdAt (filter (isPendingOf uid) (store st)))
           in (Inr pendingCalls,
               st\<lparr>ticks := Suc (ticks st), trace := trace st @ [Fetched (length pendingCalls)]\<rparr>)))"

definition put :: "IBulkCallQueue \<Rightarrow> IBulkCallQueue list \<Rightarrow> IBulkCallQueue list" where
  \<comment> \<open>the stored document with the identifier of \<open>doc\<close> becomes \<open>doc\<close>\<close>
  "put doc es = map (\<lambda>e. if entryId e = entryId doc then doc else e) es"

definition save :: "env \<Rightarrow> IBulkCallQueue \<Rightarrow> state \<Rightarrow> (string + unit) \<times> state" where
  \<comment> \<open>\<open>call.save()\<close>: the document is written with its \<open>updatedAt\<close> set to the time
      of the save; the trace keeps the document as the code assigned it\<close>
  "save env doc st =
     (case saveError env (ticks st) of
        Some msg \<Rightarrow>
          (Inl msg, st\<lparr>ticks := Suc (ticks st), trace := trace st @ [SaveFailed doc msg]\<rparr>)
      | None \<Rightarrow>
          (Inr (), st\<lparr>store := put (stamp doc (clock st)) (store st), ticks := Suc (ticks st),
                      trace := trace st @ [Saved doc]\<rparr>))"

definition markFailed :: "IBulkCallQueue \<Rightarrow> string \<Rightarrow> IBulkCallQueue" where
  \<comment> \<open>\<open>call.status = 'failed'; call.errorMessage = reason\<close>\<close>
  "markFailed call reason = call\<lparr>status := failed, errorMessage := Some reason\<rparr>"

definition processCall_catch ::
  "env \<Rightarrow> string \<Rightarrow> IBulkCallQueue \<Rightarrow> state \<Rightarrow> nat \<Rightarrow> (string + unit) \<times> state \<times> nat" where
  \<comment> \<open>the inner \<open>catch\<close>: an exception of its own \<open>save\<close> leaves the loops\<close>
  "processCall_catch env msg call st processedCount =
     (let call' = markFailed call (if msg = [] then ''Processing error'' else msg)
      in case save env call' st of
           (Inl m, st') \<Rightarrow> (Inl m, st', processedCount)
         | (Inr _, st') \<Rightarrow> (Inr (), st', Suc processedCount))"

definition pace :: "nat \<Rightarrow> nat \<Rightarrow> state \<Rightarrow> state" where
  \<comment> \<open>\<open>if (processedCount < pendingCalls.length) await delay(CALL_DELAY)\<close>\<close>
  "pace processedCount batchLength st =
     (if processedCount < batchLength then delay CALL_DELAY st else st)"

definition markProcessing :: "IBulkCallQueue \<Rightarrow> nat \<Rightarrow> IBulkCallQueue" where
  \<comment> \<open>\<open>call.status = 'processing'; call.callAttempts += 1; call.lastAttemptAt = new Date()\<close>\<close>
  "markProcessing call now =
     call\<lparr>status := processing, callAttempts := callAttempts call + 1,
          lastAttemptAt := Some now\<rparr>"

definition markCompleted :: "IBulkCallQueue \<Rightarrow> BolnaCallResponse \<Rightarrow> IBulkCallQueue" where
  \<comment> \<open>\<open>call.status = 'completed'; call.bolnaCallId = result.callId;
      call.errorMessage = undefined\<close>\<close>
  "markCompleted call result =
     call\<lparr>status := completed, bolnaCallId := callId result, errorMessage := None\<rparr>"

definition called :: "env \<Rightarrow> string \<Rightarrow> IBulkCallQueue \<Rightarrow> state \<Rightarrow> state" where
  \<comment> \<open>the state once \<open>triggerOutboundCall\<close> has returned or thrown\<close>
  "called env uid call st =
     st\<lparr>clock := clock st + dispatchMs env (ticks st), ticks := Suc (ticks st),
        trace := trace st @
          [Dispatched (clock st) (formatPhoneNumber (phone call)) (name call) uid
             (city call, email call, notes' call)]\<rparr>"

definition processCall_try ::
  "env \<Rightarrow> string \<Rightarrow> nat \<Rightarrow> IBulkCallQueue \<Rightarrow> state \<Rightarrow> nat
     \<Rightarrow> (string \<times> IBulkCallQueue \<times> state) + (state \<times> nat)" where
  \<comment> \<open>the \<open>try\<close> block in the body of \<open>for (const call of pendingCalls)\<close>:
      \<open>processedCount\<close> is the counter of the whole run and \<open>batchLength\<close> is
      \<open>pendingCalls.length\<close>. \<open>Inl\<close> is an exception, with its message, the document
      as assigned so far and the state; \<open>Inr\<close> is the end of the block\<close>
  "processCall_try env uid batchLength call st processedCount =
     (let call1 = markProcessing call (clock st)
      in case save env call1 st of
           (Inl msg, st1) \<Rightarrow> Inl (msg, call1, st1)
         | (Inr _, st1) \<Rightarrow>
             (let formattedPhone = formatPhoneNumber (phone call1);
                  st2 = called env uid call1 st1
              in case dispatch env (ticks st1) formattedPhone (name call1) uid
                        (city call1, email call1, notes' call1) of
                   Inl msg \<Rightarrow> Inl (msg, call1, st2)
                 | Inr result \<Rightarrow>
                     if success result \<and> truthy (callId result) then
                       (let call2 = markCompleted call1 result
                        in case save env call2 st2 of
                             (Inl msg, st3) \<Rightarrow> Inl (msg, call2, st3)
                           | (Inr _, st3) \<Rightarrow>
                               Inr (pace (Suc processedCount) batchLength st3,
                                    Suc processedCount))
                     else
                       (let call2 = markFailed call1 (orElse (error result) ''Unknown error'')
                        in case save env call2 st2 of
                             (Inl msg, st3) \<Rightarrow> Inl (msg, call2, st3)
                           | (Inr _, st3) \<Rightarrow>
                               Inr (pace (Suc processedCount) batchLength st3,
                                    Suc processedCount))))"

definition processCall ::
  "env \<Rightarrow> string \<Rightarrow> nat \<Rightarrow> IBulkCallQueue \<Rightarrow> state \<Rightarrow> nat \<Rightarrow> (string + unit) \<times> state \<times> nat" where
  \<comment> \<open>\<open>try { ... } catch (error) { ... }\<close> for one entry\<close>
  "processCall env uid batchLength call st processedCount =
     (case processCall_try env uid batchLength call st processedCount of
        Inl (msg, call', st') \<Rightarrow> processCall_catch env msg call' st' processedCount
      | Inr (st', processedCount') \<Rightarrow> (Inr (), st', processedCount'))"

fun processBatch ::
  "env \<Rightarrow> string \<Rightarrow> nat \<Rightarrow> IBulkCallQueue list \<Rightarrow> state \<Rightarrow> nat \<Rightarrow> (string + unit) \<times> state \<times> nat" where
  "processBatch env uid batchLength [] st processedCount = (Inr (), st, processedCount)"
| "processBatch env uid batchLength (call # rest) st processedCount =
     (case processCall env uid batchLength call st processedCount of
        (Inl m, st', processedCount') \<Rightarrow> (Inl m, st', processedCount')
      | (Inr _, st', processedCount') \<Rightarrow> processBatch env uid batchLength rest st' processedCount')"

function processLoop ::
  "env \<Rightarrow> string \<Rightarrow> state \<Rightarrow> nat \<Rightarrow> (string + unit) \<times> state \<times> nat" where
  "processLoop env uid st processedCount =
     (case findPending env uid st of
        (Inl m, st1) \<Rightarrow> (Inl m, st1, processedCount)
      | (Inr pendingCalls, st1) \<Rightarrow>
          if pendingCalls = [] then (Inr (), st1, processedCount)
          else (case processBatch env uid (length pendingCalls) pendingCalls st1 processedCount of
                  (Inl m, st2, processedCount') \<Rightarrow> (Inl m, st2, processedCount')
                | (Inr _, st2, processedCount') \<Rightarrow>
                    processLoop env uid (delay 1000 st2) processedCount'))"
  by pat_completeness auto

text \<open>
  The function returns nothing; what it prints last tells how the run ended, and that line
  is the first component of the result here.
\<close>

datatype run_log = AlreadyRunning | ProcessingComplete | ProcessorError string

definition processCallQueue :: "env \<Rightarrow> string \<Rightarrow> state \<Rightarrow> run_log \<times> state" where
  "processCallQueue env uid st =
     (if activeProcessors st uid = Some True then (AlreadyRunning, st)
      else
        (let st0 = st\<lparr>activeProcessors := (activeProcessors st)(uid \<mapsto> True)\<rparr> in
         case processLoop env uid st0 0 of
           (Inl m, st1, _) \<Rightarrow>
             (ProcessorError m, st1\<lparr>activeProcessors := (activeProcessors st1)(uid := None)\<rparr>)
         | (Inr _, st1, _) \<Rightarrow>
             (ProcessingComplete, st1\<lparr>activeProcessors := (activeProcessors st1)(uid := None)\<rparr>)))"

section \<open>The routes: upload and retry-all\<close>

text \<open>
  The handlers are modelled up to the response: what they answer, the entries of the store
  afterwards, and whether they started \<open>processCallQueue\<close> for the owner (they do not wait
  for it). A failing store call is an optional error message. The \<open>message\<close> field of a
  response, which repeats the count in words, is left out.
\<close>

definition findDuplicates :: "ParsedContact list \<Rightarrow> IBulkCallQueue list \<Rightarrow> string list" where
  "findDuplicates newContacts existingContacts =
     (let existingPhones = set (map phone existingContacts)
      in map phone (filter (\<lambda>contact. phone contact \<in> existingPhones) newContacts))"

record upload_request =
  req_userId :: "string option"
  req_file :: "ParseResult option"
  req_checkDuplicates :: "string option"

record upload_summary =
  sum_totalRows :: nat
  sum_validRows :: nat
  savedContacts :: nat
  errorCount :: nat
  duplicatesFound :: nat

datatype upload_response =
    UploadCreated upload_summary "(nat \<times> string \<times> string \<times> status) list" "string list" "string list"
  | UploadNoFile
  | UploadUnauthorized
  | UploadParseFailed "string list" nat nat
  | UploadFailed string

definition freshId :: "IBulkCallQueue list \<Rightarrow> nat" where
  \<comment> \<open>identifiers are opaque and new; here, one more than the largest in use\<close>
  "freshId es = Suc (fold max (map entryId es) 0)"

definition contactsToSave :: "string \<Rightarrow> nat \<Rightarrow> nat \<Rightarrow> ParsedContact list \<Rightarrow> IBulkCallQueue list" where
  "contactsToSave uid now firstId cs =
     map (\<lambda>(k, contact).
            \<lparr>name = name contact, phone = phone contact, city = city contact,
             email = map_option toLowerCase (email contact), notes' = notes' contact,
             entryId = firstId + k, userId = uid, status = pending, bolnaCallId = None,
             errorMessage = None, callAttempts = 0, lastAttemptAt = None, createdAt = now,
             updatedAt = now\<rparr>)
         (enumerate 0 cs)"

definition upload ::
  "string option \<Rightarrow> string option \<Rightarrow> nat \<Rightarrow> upload_request \<Rightarrow> IBulkCallQueue list
     \<Rightarrow> upload_response \<times> IBulkCallQueue list \<times> bool" where
  "upload findErr insertErr now req es =
     (let checkDuplicates = (req_checkDuplicates req = Some ''true'') in
      case req_file req of
        None \<Rightarrow> (UploadNoFile, es, False)
      | Some parseResult \<Rightarrow>
          if \<not> truthy (req_userId req) then (UploadUnauthorized, es, False)
          else
            (let uid = the (req_userId req) in
             if \<not> parse_success parseResult \<or> length (contacts parseResult) = 0 then
               (UploadParseFailed (errors parseResult) (totalRows parseResult)
                  (validRows parseResult), es, False)
             else if checkDuplicates \<and> findErr \<noteq> None then
               (UploadFailed (the findErr), es, False)
             else
               (let duplicates =
                      (if checkDuplicates then
                         findDuplicates (contacts parseResult)
                           (filter (\<lambda>e. userId e = uid
                                        \<and> phone e \<in> set (map phone (contacts parseResult))) es)
                       else []);
                    savedContacts = contactsToSave uid now (freshId es) (contacts parseResult)
                in case insertErr of
                     Some msg \<Rightarrow> (UploadFailed msg, es, False)
                   | None \<Rightarrow>
                       (UploadCreated
                          \<lparr>sum_totalRows = totalRows parseResult,
                           sum_validRows = validRows parseResult,
                           savedContacts = length savedContacts,
                           errorCount = length (errors parseResult),
                           duplicatesFound = length duplicates\<rparr>
                          (map (\<lambda>c. (entryId c, name c, phone c, status c)) savedContacts)
                          (errors parseResult) duplicates,
                        es @ savedContacts, True))))"

datatype retry_response =
    RetryOk nat
  | RetryNotFound string
  | RetryFailed string

definition updateMany_failed_to_pending ::
  "nat \<Rightarrow> string \<Rightarrow> IBulkCallQueue list \<Rightarrow> IBulkCallQueue list \<times> nat" where
  \<comment> \<open>\<open>updateMany({userId, status: 'failed'}, {$set: {status: 'pending'}})\<close> at time
      \<open>now\<close>, with its \<open>modifiedCount\<close>; every document it changes is stamped\<close>
  "updateMany_failed_to_pending now uid es =
     (map (\<lambda>e. if userId e = uid \<and> status e = failed
               then stamp (e\<lparr>status := pending\<rparr>) now else e) es,
      length (filter (\<lambda>e. userId e = uid \<and> status e = failed) es))"

definition retry_all ::
  "string option \<Rightarrow> nat \<Rightarrow> string \<Rightarrow> IBulkCallQueue list
     \<Rightarrow> retry_response \<times> IBulkCallQueue list \<times> bool" where
  \<comment> \<open>the third component tells whether \<open>processCallQueue(userId)\<close> was started\<close>
  "retry_all updateErr now uid es =
     (case updateErr of
        Some msg \<Rightarrow> (RetryFailed msg, es, False)
      | None \<Rightarrow>
          (let (es', modifiedCount) = updateMany_failed_to_pending now uid es in
           if modifiedCount = 0 then (RetryNotFound ''No failed calls found'', es', False)
           else (RetryOk modifiedCount, es', uid \<noteq> [])))"

fun timeline :: "event list \<Rightarrow> (nat + nat) list" where
  \<comment> \<open>what a test double that records time sees of a trace: \<open>Inl t\<close> for a call
      started at \<open>t\<close>, \<open>Inr ms\<close> for a delay of \<open>ms\<close>\<close>
  "timeline [] = []"
| "timeline (Dispatched t _ _ _ _ # es) = Inl t # timeline es"
| "timeline (Delayed ms # es) = Inr ms # timeline es"
| "timeline (_ # es) = timeline es"

fun paced :: "nat list \<Rightarrow> (nat + nat) list" where
  \<comment> \<open>calls started at the given times with the pacing delay between each two\<close>
  "paced [] = []"
| "paced [t] = [Inl t]"
| "paced (t # t' # ts) = Inl t # Inr CALL_DELAY # paced (t' # ts)"

fun spaced :: "nat \<Rightarrow> nat list \<Rightarrow> bool" where
  \<comment> \<open>each time is at least \<open>d\<close> after the one before\<close>
  "spaced d (t # t' # ts) = (t + d \<le> t' \<and> spaced d (t' # ts))"
| "spaced d _ = True"

section \<open>Sample inputs\<close>

definition sampleEntry :: "nat \<Rightarrow> string \<Rightarrow> string \<Rightarrow> status \<Rightarrow> nat \<Rightarrow> IBulkCallQueue" where
  "sampleEntry k uid ph s n =
     \<lparr>name = ''Asha'', phone = ph, city = None, email = None, notes' = None,
      entryId = k, userId = uid, status = s, bolnaCallId = None, errorMessage = None,
      callAttempts = n, lastAttemptAt = None, createdAt = k, updatedAt = k\<rparr>"

definition sampleContact :: "string \<Rightarrow> ParsedContact" where
  "sampleContact ph = \<lparr>name = ''Ravi'', phone = ph, city = None, email = None, notes' = None\<rparr>"

definition sampleUpload :: "string option \<Rightarrow> string \<Rightarrow> upload_request" where
  \<comment> \<open>owner \<open>U\<close> uploads a file with one valid contact\<close>
  "sampleUpload flag ph =
     \<lparr>req_userId = Some ''U'',
      req_file = Some \<lparr>parse_success = True, contacts = [sampleContact ph], errors = [],
                        totalRows = 1, validRows = 1\<rparr>,
      req_checkDuplicates = flag\<rparr>"

definition sampleState :: "IBulkCallQueue list \<Rightarrow> state" where
  "sampleState es = \<lparr>store = es, activeProcessors = Map.empty, clock = 0, ticks = 0, trace = []\<rparr>"

definition acceptingEnv :: env where
  \<comment> \<open>a test double: the store works, every call is accepted at once\<close>
  "acceptingEnv =
     \<lparr>dispatch = (\<lambda>_ _ _ _ _. Inr \<lparr>success = True, callId = Some ''exec-1'',
                                     message = Some ''Call initiated successfully'',
                                     error = None\<rparr>),
      dispatchMs = (\<lambda>_. 0), saveError = (\<lambda>_. None), findError = (\<lambda>_. None)\<rparr>"

definition flakyEnv :: env where
  \<comment> \<open>a test double: the first \<open>save\<close> of a run (the call after its first fetch) throws,
      the later ones work\<close>
  "flakyEnv = acceptingEnv\<lparr>saveError := (\<lambda>t. if t = 1 then Some ''write conflict'' else None)\<rparr>"

definition failingHandlerEnv :: env where
  \<comment> \<open>a test double: the first \<open>save\<close> of a run throws, and so does the next one, which
      is the one of the handler\<close>
  "failingHandlerEnv =
     acceptingEnv\<lparr>saveError := (\<lambda>t. if t = 1 \<or> t = 2 then Some ''write conflict'' else None)\<rparr>"

definition storeDownEnv :: env where
  \<comment> \<open>a test double: every \<open>save\<close> throws\<close>
  "storeDownEnv = acceptingEnv\<lparr>saveError := (\<lambda>_. Some ''store down'')\<rparr>"

section \<open>Relations between two states of the store\<close>

definition finished :: "IBulkCallQueue \<Rightarrow> IBulkCallQueue \<Rightarrow> bool" where
  \<comment> \<open>\<open>d\<close> is what one completed attempt leaves of the fetched entry \<open>c\<close>\<close>
  "finished c d = (entryId d = entryId c \<and> (status d = completed \<or> status d = failed)
      \<and> callAttempts d = Suc (callAttempts c))"

definition settled :: "IBulkCallQueue \<Rightarrow> BolnaCallResponse \<Rightarrow> IBulkCallQueue" where
  \<comment> \<open>the document after the answer of the dispatch, in either branch\<close>
  "settled call1 result =
     (if success result \<and> truthy (callId result) then markCompleted call1 result
      else markFailed call1 (orElse (error result) ''Unknown error''))"

definition advanced :: "IBulkCallQueue \<Rightarrow> IBulkCallQueue \<Rightarrow> bool" where
  \<comment> \<open>a stored entry later in a run: untouched, or attempted and in a final status\<close>
  "advanced e e' = (entryId e' = entryId e \<and>
      (e' = e \<or> ((status e' = completed \<or> status e' = failed) \<and> 1 \<le> callAttempts e')))"

section \<open>Phone formatting\<close>

lemma digits_no_space_dash: "isDigit c \<Longrightarrow> \<not> (isSpace c \<or> c = CHR ''-'')"
  by (auto simp: isDigit_def isSpace_def)

lemma digits_filter_clean:
  "filter (\<lambda>c. \<not> (isSpace c \<or> c = CHR ''-'')) (filter isDigit s) = filter isDigit s"
  by (induction s) (use digits_no_space_dash in auto)

lemma dropWhile_space_digits: "dropWhile isSpace (rev (filter isDigit s)) = rev (filter isDigit s)"
proof (cases "rev (filter isDigit s)")
  case Nil
  then show ?thesis by simp
next
  case (Cons c cs)
  then have "c \<in> set (filter isDigit s)"
    by (metis list.set_intros(1) set_rev)
  then have "\<not> isSpace c"
    using digits_no_space_dash by auto
  with Cons show ?thesis by simp
qed

lemma trim_plus_digits: "trim (CHR ''+'' # filter isDigit s) = CHR ''+'' # filter isDigit s"
proof -
  have a: "dropWhile isSpace (CHR ''+'' # filter isDigit s) = CHR ''+'' # filter isDigit s"
    by (simp add: isSpace_def)
  have b: "dropWhile isSpace (rev (filter isDigit s) @ ''+'') = rev (filter isDigit s) @ ''+''"
  proof (cases "filter isDigit s = []")
    case True
    then show ?thesis by (simp add: isSpace_def)
  next
    case False
    then have "rev (filter isDigit s) \<noteq> []" by simp
    then have "dropWhile isSpace (rev (filter isDigit s) @ ''+'')
                 = dropWhile isSpace (rev (filter isDigit s)) @ ''+''"
      using dropWhile_space_digits [of s]
      by (metis dropWhile_append1 dropWhile_eq_Nil_conv)
    then show ?thesis by (simp add: dropWhile_space_digits)
  qed
  show ?thesis
    unfolding trim_def a by (simp add: b)
qed

lemma formatPhoneNumber_shape:
  "\<exists>ds. formatPhoneNumber p = CHR ''+'' # filter isDigit ds"
proof -
  have n: "''91'' @ filter isDigit p = filter isDigit (''91'' @ p)"
    by (simp add: isDigit_def)
  show ?thesis
    unfolding formatPhoneNumber_def Let_def
    using n by (metis append_Cons append_Nil)
qed

text \<open>
  The dispatch of the repository never throws (it is a function into responses), and a
  response that reports a failure always carries a reason.
\<close>

lemma triggerOutboundCall_catch_reason:
  "\<not> success (triggerOutboundCall_catch r) \<and> truthy (error (triggerOutboundCall_catch r))"
  by (cases r) (simp_all add: triggerOutboundCall_catch_def truthy_def)

lemma triggerOutboundCall_failure_reason:
  assumes "\<not> success (triggerOutboundCall env ph contactName uid meta)"
  shows "truthy (error (triggerOutboundCall env ph contactName uid meta))"
proof -
  let ?t = "triggerOutboundCall env ph contactName uid meta"
  let ?agent = "orElse (BOLNA_AGENT_ID env) ''default-agent-id''"
  let ?post = "axios_post env ?agent (recipient_phone_number ph) uid contactName meta"
  have c: "truthy (error (triggerOutboundCall_catch r))" for r
    using triggerOutboundCall_catch_reason by blast
  consider (key) "\<not> truthy (BOLNA_API_KEY env)"
    | (agent) "truthy (BOLNA_API_KEY env)"
        "?agent = ''your-bolna-agent-id-here'' \<or> ?agent = ''default-agent-id''"
    | (mock) "truthy (BOLNA_API_KEY env)"
        "\<not> (?agent = ''your-bolna-agent-id-here'' \<or> ?agent = ''default-agent-id'')"
        "MOCK_BOLNA_CALLS env = Some ''true''"
    | (post) "truthy (BOLNA_API_KEY env)"
        "\<not> (?agent = ''your-bolna-agent-id-here'' \<or> ?agent = ''default-agent-id'')"
        "MOCK_BOLNA_CALLS env \<noteq> Some ''true''"
    by blast
  then show ?thesis
  proof cases
    case key
    then have "\<exists>r. ?t = triggerOutboundCall_catch r"
      by (auto simp add: triggerOutboundCall_def Let_def)
    with c show ?thesis by auto
  next
    case agent
    then have "\<exists>r. ?t = triggerOutboundCall_catch r"
      by (auto simp add: triggerOutboundCall_def Let_def)
    with c show ?thesis by auto
  next
    case mock
    then have "success ?t"
      by (simp add: triggerOutboundCall_def Let_def)
    with assms show ?thesis by simp
  next
    case post
    then have t: "?t = (case ?post of
        AxiosData execution_id call_id js \<Rightarrow>
          (if truthy execution_id \<or> truthy call_id then
             \<lparr>success = True,
              callId = (if truthy execution_id then execution_id else call_id),
              message = Some ''Call initiated successfully'', error = None\<rparr>
           else
             \<lparr>success = False, callId = None, message = None,
              error = Some (''Unexpected response format from Bolna API: '' @ js)\<rparr>)
      | r \<Rightarrow> triggerOutboundCall_catch r)"
      by (simp add: triggerOutboundCall_def Let_def)
    show ?thesis
    proof (cases ?post)
      case (AxiosData e i js)
      with t assms have "error ?t = Some (''Unexpected response format from Bolna API: '' @ js)"
        by (cases "truthy e \<or> truthy i") simp_all
      then show ?thesis by (simp add: truthy_def)
    next
      case (AxiosErrorResponse st apiError js)
      with t have "?t = triggerOutboundCall_catch ?post" by simp
      with c show ?thesis by simp
    next
      case AxiosNoResponse
      with t have "?t = triggerOutboundCall_catch ?post" by simp
      with c show ?thesis by simp
    next
      case (AxiosSetupError msg)
      with t have "?t = triggerOutboundCall_catch ?post" by simp
      with c show ?thesis by simp
    qed
  qed
qed

section \<open>The run ends\<close>

lemma put_put: "entryId d1 = entryId d2 \<Longrightarrow> put d2 (put d1 es) = put d2 es"
  by (induction es) (auto simp: put_def)

lemma store_delay: "store (delay ms st) = store st"
  by (simp add: delay_def)

lemma store_pace: "store (pace a b st) = store st"
  by (simp add: pace_def store_delay)

lemma stamp_fields [simp]:
  "entryId (stamp d t) = entryId d" "userId (stamp d t) = userId d"
  "status (stamp d t) = status d" "callAttempts (stamp d t) = callAttempts d"
  "createdAt (stamp d t) = createdAt d" "updatedAt (stamp d t) = t"
  "phone (stamp d t) = phone d" "name (stamp d t) = name d"
  "bolnaCallId (stamp d t) = bolnaCallId d" "errorMessage (stamp d t) = errorMessage d"
  "lastAttemptAt (stamp d t) = lastAttemptAt d"
  by (simp_all add: stamp_def)

lemma stamp_stamp [simp]: "stamp (stamp d t) t' = stamp d t'"
  by (simp add: stamp_def)

lemma save_Inr:
  "save env doc st = (Inr u, st') \<Longrightarrow> store st' = put (stamp doc (clock st)) (store st)"
  by (auto simp: save_def split: option.splits)

lemma save_clock: "save env doc st = (r, st') \<Longrightarrow> clock st' = clock st"
  by (auto simp: save_def split: option.splits)

lemma save_Inl: "save env doc st = (Inl m, st') \<Longrightarrow> store st' = store st"
  by (auto simp: save_def split: option.splits)

lemma save_works:
  "saveError env (ticks st) = None \<Longrightarrow>
   save env doc st = (Inr (), st\<lparr>store := put (stamp doc (clock st)) (store st),
                                   ticks := Suc (ticks st), trace := trace st @ [Saved doc]\<rparr>)"
  by (simp add: save_def)

lemma save_throws:
  "saveError env (ticks st) = Some msg \<Longrightarrow>
   save env doc st = (Inl msg, st\<lparr>ticks := Suc (ticks st), trace := trace st @ [SaveFailed doc msg]\<rparr>)"
  by (simp add: save_def)

lemma catch_Inr:
  "processCall_catch env msg c st pc = (Inr u, st', pc') \<Longrightarrow>
   store st' = put (stamp (markFailed c (if msg = [] then ''Processing error'' else msg))
                      (clock st)) (store st)"
  by (auto simp: processCall_catch_def Let_def dest: save_Inr split: prod.splits sum.splits)

lemma mark_entryId [simp]:
  "entryId (markProcessing c t) = entryId c" "entryId (markCompleted c r) = entryId c"
  "entryId (markFailed c m) = entryId c"
  by (simp_all add: markProcessing_def markCompleted_def markFailed_def)

lemma mark_callAttempts [simp]:
  "callAttempts (markProcessing c t) = Suc (callAttempts c)"
  "callAttempts (markCompleted c r) = callAttempts c"
  "callAttempts (markFailed c m) = callAttempts c"
  by (simp_all add: markProcessing_def markCompleted_def markFailed_def)

lemma mark_status [simp]:
  "status (markProcessing c t) = processing" "status (markCompleted c r) = completed"
  "status (markFailed c m) = failed"
  by (simp_all add: markProcessing_def markCompleted_def markFailed_def)

lemma mark_contact [simp]:
  "phone (markProcessing c t) = phone c" "name (markProcessing c t) = name c"
  "city (markProcessing c t) = city c" "email (markProcessing c t) = email c"
  "notes' (markProcessing c t) = notes' c"
  "phone (markCompleted c r) = phone c" "name (markCompleted c r) = name c"
  "phone (markFailed c m) = phone c" "name (markFailed c m) = name c"
  by (simp_all add: markProcessing_def markCompleted_def markFailed_def)

lemma mark_owner [simp]:
  "userId (markProcessing c t) = userId c" "userId (markCompleted c r) = userId c"
  "userId (markFailed c m) = userId c"
  "createdAt (markProcessing c t) = createdAt c" "createdAt (markCompleted c r) = createdAt c"
  "createdAt (markFailed c m) = createdAt c"
  "updatedAt (markProcessing c t) = updatedAt c" "updatedAt (markCompleted c r) = updatedAt c"
  "updatedAt (markFailed c m) = updatedAt c"
  by (simp_all add: markProcessing_def markCompleted_def markFailed_def)

lemma mark_result [simp]:
  "bolnaCallId (markCompleted c r) = callId r" "errorMessage (markCompleted c r) = None"
  "errorMessage (markFailed c m) = Some m" "bolnaCallId (markFailed c m) = bolnaCallId c"
  "bolnaCallId (markProcessing c t) = bolnaCallId c"
  "errorMessage (markProcessing c t) = errorMessage c"
  "lastAttemptAt (markProcessing c t) = Some t"
  "lastAttemptAt (markCompleted c r) = lastAttemptAt c"
  "lastAttemptAt (markFailed c m) = lastAttemptAt c"
  by (simp_all add: markProcessing_def markCompleted_def markFailed_def)

lemma sampleEntry_fields [simp]:
  "entryId (sampleEntry k uid ph s n) = k" "userId (sampleEntry k uid ph s n) = uid"
  "phone (sampleEntry k uid ph s n) = ph" "status (sampleEntry k uid ph s n) = s"
  "callAttempts (sampleEntry k uid ph s n) = n" "createdAt (sampleEntry k uid ph s n) = k"
  "name (sampleEntry k uid ph s n) = ''Asha''" "city (sampleEntry k uid ph s n) = None"
  "email (sampleEntry k uid ph s n) = None" "notes' (sampleEntry k uid ph s n) = None"
  "bolnaCallId (sampleEntry k uid ph s n) = None" "errorMessage (sampleEntry k uid ph s n) = None"
  "lastAttemptAt (sampleEntry k uid ph s n) = None" "updatedAt (sampleEntry k uid ph s n) = k"
  by (simp_all add: sampleEntry_def)

lemma store_called [simp]: "store (called env uid c st) = store st"
  by (simp add: called_def)

text \<open>The \<open>try\<close> block, one equation for each way through it.\<close>

lemma try_first_save_throws:
  "save env (markProcessing c (clock st)) st = (Inl msg, st1) \<Longrightarrow>
   processCall_try env uid n c st pc = Inl (msg, markProcessing c (clock st), st1)"
  by (simp add: processCall_try_def Let_def)

lemma try_dispatch_throws:
  "save env (markProcessing c (clock st)) st = (Inr x, st1) \<Longrightarrow>
   dispatch env (ticks st1) (formatPhoneNumber (phone c)) (name c) uid
     (city c, email c, notes' c) = Inl msg \<Longrightarrow>
   processCall_try env uid n c st pc
     = Inl (msg, markProcessing c (clock st), called env uid (markProcessing c (clock st)) st1)"
  by (simp add: processCall_try_def Let_def)

lemma try_dispatch_accepts:
  "save env (markProcessing c (clock st)) st = (Inr x, st1) \<Longrightarrow>
   dispatch env (ticks st1) (formatPhoneNumber (phone c)) (name c) uid
     (city c, email c, notes' c) = Inr result \<Longrightarrow>
   success result \<and> truthy (callId result) \<Longrightarrow>
   processCall_try env uid n c st pc
     = (case save env (markCompleted (markProcessing c (clock st)) result)
               (called env uid (markProcessing c (clock st)) st1) of
          (Inl msg, st3) \<Rightarrow> Inl (msg, markCompleted (markProcessing c (clock st)) result, st3)
        | (Inr _, st3) \<Rightarrow> Inr (pace (Suc pc) n st3, Suc pc))"
  by (simp add: processCall_try_def Let_def)

lemma try_dispatch_refuses:
  "save env (markProcessing c (clock st)) st = (Inr x, st1) \<Longrightarrow>
   dispatch env (ticks st1) (formatPhoneNumber (phone c)) (name c) uid
     (city c, email c, notes' c) = Inr result \<Longrightarrow>
   \<not> (success result \<and> truthy (callId result)) \<Longrightarrow>
   processCall_try env uid n c st pc
     = (case save env (markFailed (markProcessing c (clock st)) (orElse (error result) ''Unknown error''))
               (called env uid (markProcessing c (clock st)) st1) of
          (Inl msg, st3) \<Rightarrow>
            Inl (msg, markFailed (markProcessing c (clock st)) (orElse (error result) ''Unknown error''), st3)
        | (Inr _, st3) \<Rightarrow> Inr (pace (Suc pc) n st3, Suc pc))"
  by (cases "success result"; cases "truthy (callId result)")
     (simp_all add: processCall_try_def Let_def)

text \<open>
  Whatever the block does, the document in hand is the fetched one with one more attempt,
  and the store holds either what it held or one document of the same identifier.
\<close>

lemma save_flags:
  "save env doc st = (r, st') \<Longrightarrow> activeProcessors st' = activeProcessors st"
  by (auto simp: save_def split: option.splits)

lemma processCall_try_cases:
  obtains (thrown) msg c' st' where "processCall_try env uid n c st pc = Inl (msg, c', st')"
      "entryId c' = entryId c" "callAttempts c' = Suc (callAttempts c)"
      "store st' = store st
         \<or> store st' = put (stamp (markProcessing c (clock st)) (clock st)) (store st)"
      "activeProcessors st' = activeProcessors st"
  | (ended) d st3 where "processCall_try env uid n c st pc = Inr (pace (Suc pc) n st3, Suc pc)"
      "finished c d"
      "store st3 = put d (put (stamp (markProcessing c (clock st)) (clock st)) (store st))"
      "activeProcessors st3 = activeProcessors st"
proof -
  let ?c1 = "markProcessing c (clock st)"
  obtain r1 st1 where s1: "save env ?c1 st = (r1, st1)"
    by (cases "save env ?c1 st")
  have f1: "activeProcessors st1 = activeProcessors st"
    using s1 by (rule save_flags)
  show thesis
  proof (cases r1)
    case (Inl msg)
    then have "processCall_try env uid n c st pc = Inl (msg, ?c1, st1)"
      using s1 try_first_save_throws by simp
    moreover have "store st1 = store st" using s1 Inl save_Inl by blast
    ultimately show thesis using thrown f1 by simp
  next
    case r1: (Inr x)
    then have st1: "store st1 = put (stamp ?c1 (clock st)) (store st)" using s1 save_Inr by blast
    let ?st2 = "called env uid ?c1 st1"
    have f2: "activeProcessors ?st2 = activeProcessors st"
      using f1 by (simp add: called_def)
    show thesis
    proof (cases "dispatch env (ticks st1) (formatPhoneNumber (phone c)) (name c) uid
                    (city c, email c, notes' c)")
      case (Inl msg)
      then have "processCall_try env uid n c st pc = Inl (msg, ?c1, ?st2)"
        using s1 r1 try_dispatch_throws by simp
      then show thesis using thrown st1 f2 by simp
    next
      case d: (Inr result)
      define c2 where "c2 = settled ?c1 result"
      have fin: "finished c (stamp c2 t)" for t by (simp add: c2_def settled_def finished_def)
      have t: "processCall_try env uid n c st pc
         = (case save env c2 ?st2 of
              (Inl msg, st3) \<Rightarrow> Inl (msg, c2, st3)
            | (Inr _, st3) \<Rightarrow> Inr (pace (Suc pc) n st3, Suc pc))"
        using s1 r1 d try_dispatch_accepts [of env c st x st1 uid result n pc]
          try_dispatch_refuses [of env c st x st1 uid result n pc]
        by (cases "success result \<and> truthy (callId result)")
           (auto simp add: c2_def settled_def cong: prod.case_cong sum.case_cong)
      obtain r3 st3 where s3: "save env c2 ?st2 = (r3, st3)"
        by (cases "save env c2 ?st2")
      have f3: "activeProcessors st3 = activeProcessors st"
        using save_flags [OF s3] f2 by simp
      show thesis
      proof (cases r3)
        case (Inl msg)
        then have "processCall_try env uid n c st pc = Inl (msg, c2, st3)"
          using t s3 by simp
        moreover have "store st3 = put (stamp ?c1 (clock st)) (store st)"
          using s3 Inl save_Inl [of env c2 ?st2 msg st3] st1 by simp
        moreover have "entryId c2 = entryId c" "callAttempts c2 = Suc (callAttempts c)"
          using fin [of 0] by (simp_all add: finished_def)
        ultimately show thesis using thrown f3 by blast
      next
        case (Inr y)
        then have "processCall_try env uid n c st pc = Inr (pace (Suc pc) n st3, Suc pc)"
          using t s3 by simp
        moreover have "store st3 = put (stamp c2 (clock ?st2)) (put (stamp ?c1 (clock st)) (store st))"
          using s3 Inr save_Inr [of env c2 ?st2 y st3] st1 by simp
        ultimately show thesis using ended fin f3 by blast
      qed
    qed
  qed
qed

lemma processCall_Inr:
  assumes "processCall env uid n c st pc = (Inr u, st', pc')"
  shows "\<exists>d. store st' = put d (store st) \<and> finished c d"
proof (cases rule: processCall_try_cases [of env uid n c st pc])
  case (thrown msg c1 st1)
  let ?d = "stamp (markFailed c1 (if msg = [] then ''Processing error'' else msg)) (clock st1)"
  from thrown(1) assms have h: "processCall_catch env msg c1 st1 pc = (Inr u, st', pc')"
    by (simp add: processCall_def)
  have f: "finished c ?d"
    using thrown(2,3) by (simp add: finished_def)
  have a: "store st' = put ?d (store st1)" using catch_Inr [OF h] .
  have "put ?d (put (stamp (markProcessing c (clock st)) (clock st)) (store st)) = put ?d (store st)"
    using thrown(2) by (simp add: put_put)
  with a thrown(4) have "store st' = put ?d (store st)" by auto
  with f show ?thesis by blast
next
  case (ended d st3)
  with assms have "st' = pace (Suc pc) n st3" by (auto simp: processCall_def)
  then have "store st' = put d (put (stamp (markProcessing c (clock st)) (clock st)) (store st))"
    using ended(3) by (simp add: store_pace)
  moreover have "entryId (stamp (markProcessing c (clock st)) (clock st)) = entryId d"
    using ended(2) by (simp add: finished_def)
  ultimately have "store st' = put d (store st)" by (simp only: put_put)
  with ended(2) show ?thesis by blast
qed

text \<open>One entry on a working store: the whole effect.\<close>

lemma processCall_normal:
  assumes s1: "saveError env (ticks st) = None"
    and d: "dispatch env (Suc (ticks st)) (formatPhoneNumber (phone c)) (name c) uid
              (city c, email c, notes' c) = Inr result"
    and s2: "saveError env (Suc (Suc (ticks st))) = None"
  shows "processCall env uid n c st pc =
    (Inr (),
     pace (Suc pc) n
       (st\<lparr>store := put (stamp (settled (markProcessing c (clock st)) result)
                               (clock st + dispatchMs env (Suc (ticks st)))) (store st),
           clock := clock st + dispatchMs env (Suc (ticks st)),
           ticks := ticks st + 3,
           trace := trace st @
             [Saved (markProcessing c (clock st)),
              Dispatched (clock st) (formatPhoneNumber (phone c)) (name c) uid
                (city c, email c, notes' c),
              Saved (settled (markProcessing c (clock st)) result)]\<rparr>),
     Suc pc)"
proof -
  let ?c1 = "markProcessing c (clock st)"
  let ?st1 = "st\<lparr>store := put (stamp ?c1 (clock st)) (store st), ticks := Suc (ticks st),
                  trace := trace st @ [Saved ?c1]\<rparr>"
  have a: "save env ?c1 st = (Inr (), ?st1)" using s1 by (rule save_works)
  have d': "dispatch env (ticks ?st1) (formatPhoneNumber (phone c)) (name c) uid
              (city c, email c, notes' c) = Inr result"
    using d by simp
  let ?st2 = "called env uid ?c1 ?st1"
  have t2: "saveError env (ticks ?st2) = None" using s2 by (simp add: called_def)
  have b: "save env (settled ?c1 result) ?st2
     = (Inr (), ?st2\<lparr>store := put (stamp (settled ?c1 result) (clock ?st2)) (store ?st2),
                       ticks := Suc (ticks ?st2),
                       trace := trace ?st2 @ [Saved (settled ?c1 result)]\<rparr>)"
    using t2 by (rule save_works)
  have "processCall_try env uid n c st pc
      = (case save env (settled ?c1 result) ?st2 of
          (Inl msg, st3) \<Rightarrow> Inl (msg, settled ?c1 result, st3)
        | (Inr _, st3) \<Rightarrow> Inr (pace (Suc pc) n st3, Suc pc))"
    using try_dispatch_accepts [OF a d', of n pc] try_dispatch_refuses [OF a d', of n pc]
    by (cases "success result \<and> truthy (callId result)")
       (auto simp add: settled_def cong: prod.case_cong sum.case_cong)
  then have "processCall_try env uid n c st pc
      = Inr (pace (Suc pc) n (?st2\<lparr>store := put (stamp (settled ?c1 result) (clock ?st2)) (store ?st2),
               ticks := Suc (ticks ?st2), trace := trace ?st2 @ [Saved (settled ?c1 result)]\<rparr>), Suc pc)"
    by (simp only: b prod.case sum.case)
  moreover have "entryId (stamp ?c1 (clock st)) = entryId (stamp (settled ?c1 result) t)" for t
    by (simp add: settled_def)
  then have "put (stamp (settled ?c1 result) t) (put (stamp ?c1 (clock st)) (store st))
               = put (stamp (settled ?c1 result) t) (store st)" for t
    by (rule put_put)
  then have "?st2\<lparr>store := put (stamp (settled ?c1 result) (clock ?st2)) (store ?st2),
               ticks := Suc (ticks ?st2), trace := trace ?st2 @ [Saved (settled ?c1 result)]\<rparr>
     = st\<lparr>store := put (stamp (settled ?c1 result)
                            (clock st + dispatchMs env (Suc (ticks st)))) (store st),
           clock := clock st + dispatchMs env (Suc (ticks st)),
           ticks := ticks st + 3,
           trace := trace st @
             [Saved ?c1,
              Dispatched (clock st) (formatPhoneNumber (phone c)) (name c) uid
                (city c, email c, notes' c),
              Saved (settled ?c1 result)]\<rparr>"
    by (simp add: called_def)
  ultimately show ?thesis
    by (simp add: processCall_def)
qed

lemma advanced_refl: "list_all2 advanced es es"
  by (simp add: list_all2_refl advanced_def)

lemma advanced_trans:
  "list_all2 advanced xs ys \<Longrightarrow> list_all2 advanced ys zs \<Longrightarrow> list_all2 advanced xs zs"
proof -
  assume a: "list_all2 advanced xs ys" and b: "list_all2 advanced ys zs"
  have "advanced x z" if "advanced x y" "advanced y z" for x y z
    using that by (auto simp: advanced_def)
  then show ?thesis
    using list_all2_trans [of advanced advanced advanced xs ys zs] a b by blast
qed

lemma put_advanced: "finished c d \<Longrightarrow> list_all2 advanced es (put d es)"
  by (induction es) (auto simp: put_def advanced_def finished_def)

lemma put_settled:
  "finished c d \<Longrightarrow> e' \<in> set (put d es) \<Longrightarrow> entryId e' = entryId c \<Longrightarrow> status e' \<noteq> pending"
  by (auto simp: put_def finished_def split: if_splits)

lemma advanced_settled:
  assumes "list_all2 advanced xs ys"
    and "\<forall>e\<in>set xs. entryId e = k \<longrightarrow> status e \<noteq> pending"
  shows "\<forall>e\<in>set ys. entryId e = k \<longrightarrow> status e \<noteq> pending"
  using assms by (induction rule: list_all2_induct) (auto simp: advanced_def)

lemma processBatch_Inr:
  "processBatch env uid n calls st pc = (Inr u, st', pc') \<Longrightarrow>
     list_all2 advanced (store st) (store st') \<and>
     (\<forall>c\<in>set calls. \<forall>e\<in>set (store st'). entryId e = entryId c \<longrightarrow> status e \<noteq> pending)"
proof (induction calls arbitrary: st pc)
  case Nil
  then show ?case by (simp add: advanced_refl)
next
  case (Cons c rest)
  obtain r st1 pc1 where p: "processCall env uid n c st pc = (r, st1, pc1)"
    by (cases "processCall env uid n c st pc")
  with Cons.prems obtain x where r: "r = Inr x"
    by (cases r) auto
  with p Cons.prems have rest: "processBatch env uid n rest st1 pc1 = (Inr u, st', pc')"
    by simp
  from p r obtain d where d: "store st1 = put d (store st)" "finished c d"
    using processCall_Inr by blast
  have ih: "list_all2 advanced (store st1) (store st')"
    "\<forall>c\<in>set rest. \<forall>e\<in>set (store st'). entryId e = entryId c \<longrightarrow> status e \<noteq> pending"
    using Cons.IH [OF rest] by auto
  have a: "list_all2 advanced (store st) (store st')"
    using put_advanced [OF d(2)] d(1) ih(1) advanced_trans by metis
  have "\<forall>e\<in>set (store st1). entryId e = entryId c \<longrightarrow> status e \<noteq> pending"
    using put_settled [OF d(2)] d(1) by auto
  then have "\<forall>e\<in>set (store st'). entryId e = entryId c \<longrightarrow> status e \<noteq> pending"
    using advanced_settled [OF ih(1)] by blast
  with a ih(2) show ?case by auto
qed

lemma pending_le:
  "list_all2 advanced xs ys \<Longrightarrow>
     length (filter (isPendingOf uid) ys) \<le> length (filter (isPendingOf uid) xs)"
  by (induction rule: list_all2_induct) (auto simp: advanced_def isPendingOf_def)

lemma pending_less:
  assumes "list_all2 advanced xs ys" and "c \<in> set xs" and "isPendingOf uid c"
    and "\<forall>e\<in>set ys. entryId e = entryId c \<longrightarrow> status e \<noteq> pending"
  shows "length (filter (isPendingOf uid) ys) < length (filter (isPendingOf uid) xs)"
  using assms
proof (induction rule: list_all2_induct)
  case Nil
  then show ?case by simp
next
  case (Cons x xs y ys)
  have le: "length (filter (isPendingOf uid) ys) \<le> length (filter (isPendingOf uid) xs)"
    using Cons.hyps(2) by (rule pending_le)
  show ?case
  proof (cases "x = c")
    case True
    with Cons.hyps(1) Cons.prems(3) have "\<not> isPendingOf uid y"
      by (auto simp: advanced_def isPendingOf_def)
    moreover have "isPendingOf uid x"
      using True Cons.prems(2) by simp
    ultimately show ?thesis using le by simp
  next
    case False
    with Cons.prems have "c \<in> set xs" by auto
    with Cons have "length (filter (isPendingOf uid) ys) < length (filter (isPendingOf uid) xs)"
      by auto
    moreover have "isPendingOf uid y \<Longrightarrow> isPendingOf uid x"
      using Cons.hyps(1) by (auto simp: advanced_def isPendingOf_def)
    ultimately show ?thesis by auto
  qed
qed

lemma findPending_Inr:
  assumes "findPending env uid st = (Inr calls, st1)"
  shows "store st1 = store st" and "set calls \<subseteq> set (filter (isPendingOf uid) (store st))"
    and "calls = [] \<Longrightarrow> filter (isPendingOf uid) (store st) = []"
proof -
  from assms have c: "calls = take MAX_CONCURRENT_CALLS (sort_key createdAt (filter (isPendingOf uid) (store st)))"
    and s: "store st1 = store st"
    by (auto simp: findPending_def Let_def split: option.splits)
  show "store st1 = store st" by (rule s)
  show "set calls \<subseteq> set (filter (isPendingOf uid) (store st))"
    unfolding c using set_take_subset [of MAX_CONCURRENT_CALLS "sort_key createdAt (filter (isPendingOf uid) (store st))"]
    by simp
  show "filter (isPendingOf uid) (store st) = []" if "calls = []"
  proof -
    from that c have "sort_key createdAt (filter (isPendingOf uid) (store st)) = []"
      by (simp add: MAX_CONCURRENT_CALLS_def)
    then have "length (sort_key createdAt (filter (isPendingOf uid) (store st))) = 0" by simp
    then show ?thesis by (simp del: filter_sort)
  qed
qed

lemma loop_decreases:
  assumes f: "(Inr calls, st1) = findPending env uid st" and ne: "calls \<noteq> []"
    and b: "(Inr u, z) = processBatch env uid (length calls) calls st1 pc" and z: "(st2, pc2) = z"
  shows "length (filter (isPendingOf uid) (store st2)) < length (filter (isPendingOf uid) (store st))"
proof -
  from f have fp: "findPending env uid st = (Inr calls, st1)" by simp
  from b z have pb: "processBatch env uid (length calls) calls st1 pc = (Inr u, st2, pc2)" by simp
  from ne obtain c where c: "c \<in> set calls" by (cases calls) auto
  with findPending_Inr(2) [OF fp] have c2: "c \<in> set (store st)" "isPendingOf uid c" by auto
  from processBatch_Inr [OF pb] findPending_Inr(1) [OF fp] c
  have "list_all2 advanced (store st) (store st2)"
    "\<forall>e\<in>set (store st2). entryId e = entryId c \<longrightarrow> status e \<noteq> pending" by auto
  from pending_less [OF this(1) c2 this(2)] show ?thesis .
qed

termination processLoop
  apply (relation "measure (\<lambda>(env, uid, st, pc). length (filter (isPendingOf uid) (store st)))")
   apply simp
  apply (simp add: store_delay)
  apply (rule loop_decreases; assumption)
  done


section \<open>What a run leaves\<close>

lemma flags_pace: "activeProcessors (pace a b st) = activeProcessors st"
  by (simp add: pace_def delay_def)

lemma processCall_flags:
  assumes "processCall env uid n c st pc = (r, st', pc')"
  shows "activeProcessors st' = activeProcessors st"
proof (cases rule: processCall_try_cases [of env uid n c st pc])
  case (thrown msg c1 st1)
  let ?d = "markFailed c1 (if msg = [] then ''Processing error'' else msg)"
  obtain r2 st2 where s: "save env ?d st1 = (r2, st2)" by (cases "save env ?d st1")
  with thrown(1) assms have "st' = st2"
    by (cases r2) (auto simp: processCall_def processCall_catch_def Let_def)
  with save_flags [OF s] thrown(5) show ?thesis by simp
next
  case (ended d st3)
  with assms have "st' = pace (Suc pc) n st3" by (auto simp: processCall_def)
  with ended(4) show ?thesis by (simp add: flags_pace)
qed

lemma processBatch_flags:
  "processBatch env uid n calls st pc = (r, st', pc') \<Longrightarrow>
     activeProcessors st' = activeProcessors st"
proof (induction calls arbitrary: st pc)
  case Nil
  then show ?case by simp
next
  case (Cons c rest)
  obtain r1 st1 pc1 where p: "processCall env uid n c st pc = (r1, st1, pc1)"
    by (cases "processCall env uid n c st pc")
  have f: "activeProcessors st1 = activeProcessors st"
    using p by (rule processCall_flags)
  show ?case
  proof (cases r1)
    case (Inl m)
    with p Cons.prems have "st' = st1" by simp
    with f show ?thesis by simp
  next
    case (Inr x)
    with p Cons.prems have "processBatch env uid n rest st1 pc1 = (r, st', pc')" by simp
    from Cons.IH [OF this] f show ?thesis by simp
  qed
qed

lemma findPending_flags:
  "findPending env uid st = (r, st') \<Longrightarrow> activeProcessors st' = activeProcessors st"
  by (auto simp: findPending_def Let_def split: option.splits)

lemma processLoop_flags:
  "processLoop env uid st pc = (r, st', pc') \<Longrightarrow> activeProcessors st' = activeProcessors st"
proof (induction env uid st pc rule: processLoop.induct)
  case (1 env uid st pc)
  obtain x st1 where fp: "findPending env uid st = (x, st1)"
    by (cases "findPending env uid st")
  have f1: "activeProcessors st1 = activeProcessors st"
    using fp by (rule findPending_flags)
  show ?case
  proof (cases x)
    case (Inl m)
    with fp "1.prems" have "st' = st1" by (simp add: processLoop.simps [of env uid st pc])
    with f1 show ?thesis by simp
  next
    case x: (Inr calls)
    show ?thesis
    proof (cases "calls = []")
      case True
      with fp x "1.prems" have "st' = st1" by (simp add: processLoop.simps [of env uid st pc])
      with f1 show ?thesis by simp
    next
      case False
      obtain r2 st2 pc2 where pb: "processBatch env uid (length calls) calls st1 pc = (r2, st2, pc2)"
        by (cases "processBatch env uid (length calls) calls st1 pc")
      have f2: "activeProcessors st2 = activeProcessors st"
        using processBatch_flags [OF pb] f1 by simp
      show ?thesis
      proof (cases r2)
        case (Inl m)
        with fp x False pb "1.prems" have "st' = st2"
          by (simp add: processLoop.simps [of env uid st pc])
        with f2 show ?thesis by simp
      next
        case r2: (Inr u)
        with fp x False pb "1.prems"
        have rec: "processLoop env uid (delay 1000 st2) pc2 = (r, st', pc')"
          by (simp add: processLoop.simps [of env uid st pc])
        have "activeProcessors st' = activeProcessors (delay 1000 st2)"
          using "1.IH" [OF fp [symmetric] x False _ r2 refl rec] pb by simp
        with f2 show ?thesis by (simp add: delay_def)
      qed
    qed
  qed
qed

lemma processLoop_Inr:
  "processLoop env uid st pc = (Inr u, st', pc') \<Longrightarrow>
     list_all2 advanced (store st) (store st') \<and> filter (isPendingOf uid) (store st') = []"
proof (induction env uid st pc rule: processLoop.induct)
  case (1 env uid st pc)
  obtain x st1 where fp: "findPending env uid st = (x, st1)"
    by (cases "findPending env uid st")
  from fp "1.prems" obtain calls where x: "x = Inr calls"
    by (cases x) (auto simp: processLoop.simps [of env uid st pc])
  have s1: "store st1 = store st"
    using findPending_Inr(1) fp x by blast
  show ?case
  proof (cases "calls = []")
    case True
    with fp x "1.prems" have "st' = st1" by (simp add: processLoop.simps [of env uid st pc])
    moreover have "filter (isPendingOf uid) (store st) = []"
      using findPending_Inr(3) fp x True by blast
    ultimately show ?thesis using s1 by (simp add: advanced_refl)
  next
    case False
    obtain r2 st2 pc2 where pb: "processBatch env uid (length calls) calls st1 pc = (r2, st2, pc2)"
      by (cases "processBatch env uid (length calls) calls st1 pc")
    with fp x False "1.prems" obtain u2 where r2: "r2 = Inr u2"
      by (cases r2) (auto simp: processLoop.simps [of env uid st pc])
    with fp x False pb "1.prems"
    have rec: "processLoop env uid (delay 1000 st2) pc2 = (Inr u, st', pc')"
      by (simp add: processLoop.simps [of env uid st pc])
    have ih: "list_all2 advanced (store (delay 1000 st2)) (store st')
        \<and> filter (isPendingOf uid) (store st') = []"
      using "1.IH" [OF fp [symmetric] x False _ r2 refl rec] pb by simp
    have "list_all2 advanced (store st) (store st2)"
      using processBatch_Inr pb r2 s1 by metis
    moreover have "list_all2 advanced (store st2) (store st')"
      using ih by (simp add: store_delay)
    ultimately have "list_all2 advanced (store st) (store st')"
      by (rule advanced_trans)
    with ih show ?thesis by simp
  qed
qed

text \<open>
  What happens to the other entries while a batch is processed: an attempt writes only the
  document of its own entry.
\<close>

lemma processBatch_append:
  "processBatch env uid n (xs @ ys) st pc =
     (case processBatch env uid n xs st pc of
        (Inl m, s, p) \<Rightarrow> (Inl m, s, p)
      | (Inr _, s, p) \<Rightarrow> processBatch env uid n ys s p)"
proof (induction xs arbitrary: st pc)
  case Nil
  then show ?case by simp
next
  case (Cons x xs)
  obtain r s p where c: "processCall env uid n x st pc = (r, s, p)"
    by (cases "processCall env uid n x st pc")
  show ?case
    by (cases r) (simp_all add: c Cons.IH)
qed

lemma put_other: "e \<in> set es \<Longrightarrow> entryId e \<noteq> entryId d \<Longrightarrow> e \<in> set (put d es)"
  by (auto simp: put_def)

lemma processCall_keeps:
  assumes "processCall env uid n c st pc = (Inr u, st', pc')"
    and "e \<in> set (store st)" and "entryId e \<noteq> entryId c"
  shows "e \<in> set (store st')"
proof -
  from processCall_Inr [OF assms(1)] obtain d where
    d: "store st' = put d (store st)" "finished c d" by blast
  then have "entryId e \<noteq> entryId d" using assms(3) by (simp add: finished_def)
  with assms(2) d(1) show ?thesis by (simp add: put_other)
qed

lemma processBatch_keeps:
  "processBatch env uid n calls st pc = (Inr u, st', pc') \<Longrightarrow>
   e \<in> set (store st) \<Longrightarrow> entryId e \<notin> entryId ` set calls \<Longrightarrow> e \<in> set (store st')"
proof (induction calls arbitrary: st pc)
  case Nil
  then show ?case by simp
next
  case (Cons c rest)
  obtain r st1 pc1 where p: "processCall env uid n c st pc = (r, st1, pc1)"
    by (cases "processCall env uid n c st pc")
  with Cons.prems(1) obtain x where r: "r = Inr x"
    by (cases r) auto
  with p Cons.prems(1) have rest: "processBatch env uid n rest st1 pc1 = (Inr u, st', pc')"
    by simp
  have "e \<in> set (store st1)"
    using processCall_keeps [of env uid n c st pc x st1 pc1 e] p r Cons.prems(2,3) by simp
  from Cons.IH [OF rest this] Cons.prems(3) show ?case by simp
qed

lemma try_keeps:
  assumes "processCall_try env uid n c st pc = Inl (msg, c', st1)"
    and "e \<in> set (store st)" and "entryId e \<noteq> entryId c"
  shows "e \<in> set (store st1)"
proof (cases rule: processCall_try_cases [of env uid n c st pc])
  case (thrown msg' c'' st'')
  with assms(1) have "st'' = st1" by simp
  with thrown(4) assms(2,3) show ?thesis by (auto simp: put_other)
next
  case (ended d st3)
  with assms(1) show ?thesis by simp
qed

lemma try_leaves:
  assumes "processCall_try env uid n c st pc = Inl (msg, c', st1)"
    and "e \<in> set (store st1)" and "entryId e = entryId c" and "c \<in> set (store st)"
    and "distinct (map entryId (store st))"
  shows "e = c \<or> e = stamp (markProcessing c (clock st)) (clock st)"
proof (cases rule: processCall_try_cases [of env uid n c st pc])
  case (thrown msg' c'' st'')
  with assms(1) have eq: "st'' = st1" by simp
  have inj: "inj_on entryId (set (store st))"
    using assms(5) by (simp add: distinct_map)
  from thrown(4) show ?thesis
  proof
    assume "store st'' = store st"
    with eq assms(2) have "e \<in> set (store st)" by simp
    with inj assms(3,4) have "e = c" by (auto dest: inj_onD)
    then show ?thesis by simp
  next
    assume "store st'' = put (stamp (markProcessing c (clock st)) (clock st)) (store st)"
    with eq assms(2,3) show ?thesis by (auto simp: put_def split: if_splits)
  qed
next
  case (ended d st3)
  with assms(1) show ?thesis by simp
qed

lemma findPending_distinct:
  assumes "findPending env uid st = (Inr calls, st1)" and "distinct (map entryId (store st))"
  shows "distinct (map entryId calls)"
proof -
  let ?p = "filter (isPendingOf uid) (store st)"
  from assms(1) have c: "calls = take MAX_CONCURRENT_CALLS (sort_key createdAt ?p)"
    by (auto simp: findPending_def Let_def split: option.splits)
  from assms(2) have d: "distinct (store st)" and i: "inj_on entryId (set (store st))"
    by (simp_all add: distinct_map)
  have "set calls \<subseteq> set (store st)"
    using findPending_Inr(2) [OF assms(1)] by auto
  with i have "inj_on entryId (set calls)"
    by (rule inj_on_subset)
  moreover have "distinct calls"
    unfolding c using d by simp
  ultimately show ?thesis by (simp add: distinct_map)
qed

lemma advanced_ids: "list_all2 advanced xs ys \<Longrightarrow> map entryId ys = map entryId xs"
  by (induction rule: list_all2_induct) (auto simp: advanced_def)


text \<open>After a batch that ends normally the run is at its next fetch.\<close>

lemma processLoop_next_batch:
  assumes "findPending env uid st = (Inr calls, st1)" and "calls \<noteq> []"
    and "processBatch env uid (length calls) calls st1 pc = (Inr u, st2, pc2)"
  shows "processLoop env uid st pc = processLoop env uid (delay 1000 st2) pc2"
  using assms by (simp add: processLoop.simps [of env uid st pc])

lemma put_ids: "map entryId (put d es) = map entryId es"
  by (induction es) (simp_all add: put_def)

lemma put_mem: "e \<in> set es \<Longrightarrow> entryId e = entryId d \<Longrightarrow> d \<in> set (put d es)"
  by (auto simp: put_def)

lemma try_ids:
  assumes "processCall_try env uid n c st pc = Inl (msg, c', st1)"
  shows "map entryId (store st1) = map entryId (store st)" and "entryId c' = entryId c"
proof -
  show "map entryId (store st1) = map entryId (store st)"
  proof (cases rule: processCall_try_cases [of env uid n c st pc])
    case (thrown msg' c'' st'')
    with assms have "st'' = st1" by simp
    with thrown(4) show ?thesis by (auto simp: put_ids)
  next
    case (ended d st3)
    with assms show ?thesis by simp
  qed
  show "entryId c' = entryId c"
    using assms by (cases rule: processCall_try_cases [of env uid n c st pc]) simp_all
qed


text \<open>The definitions that evaluate a run on a sample input.\<close>

lemmas run_defs = processCallQueue_def findPending_def processCall_def
  processCall_try_def processCall_catch_def save_def put_def pace_def delay_def called_def
  sampleState_def acceptingEnv_def storeDownEnv_def flakyEnv_def failingHandlerEnv_def
  formatPhoneNumber_def startsWith_def isDigit_def isPendingOf_def MAX_CONCURRENT_CALLS_def
  CALL_DELAY_def Let_def truthy_def orElse_def

text \<open>One entry with each test double, as one step.\<close>

lemma findError_accepting: "findError acceptingEnv t = None"
  by (simp add: acceptingEnv_def)

lemma processCall_accepting:
  "processCall acceptingEnv uid n c st pc =
    (Inr (),
     pace (Suc pc) n
       (st\<lparr>store := put (stamp (markCompleted (markProcessing c (clock st))
                          \<lparr>success = True, callId = Some ''exec-1'',
                           message = Some ''Call initiated successfully'', error = None\<rparr>)
                          (clock st)) (store st),
           ticks := ticks st + 3,
           trace := trace st @
             [Saved (markProcessing c (clock st)),
              Dispatched (clock st) (formatPhoneNumber (phone c)) (name c) uid
                (city c, email c, notes' c),
              Saved (markCompleted (markProcessing c (clock st))
                          \<lparr>success = True, callId = Some ''exec-1'',
                           message = Some ''Call initiated successfully'', error = None\<rparr>)]\<rparr>),
     Suc pc)"
proof -
  let ?r = "\<lparr>success = True, callId = Some ''exec-1'',
             message = Some ''Call initiated successfully'', error = None\<rparr>"
  have 1: "saveError acceptingEnv (ticks st) = None" by (simp add: acceptingEnv_def)
  have 2: "dispatch acceptingEnv (Suc (ticks st)) (formatPhoneNumber (phone c)) (name c) uid
              (city c, email c, notes' c) = Inr ?r" by (simp add: acceptingEnv_def)
  have 3: "saveError acceptingEnv (Suc (Suc (ticks st))) = None" by (simp add: acceptingEnv_def)
  have 4: "settled (markProcessing c (clock st)) ?r = markCompleted (markProcessing c (clock st)) ?r"
    by (simp add: settled_def truthy_def)
  have 5: "dispatchMs acceptingEnv (Suc (ticks st)) = 0" by (simp add: acceptingEnv_def)
  show ?thesis
    unfolding processCall_normal [OF 1 2 3] 4 5 by simp
qed

lemma findError_flaky: "findError flakyEnv t = None"
  by (simp add: flakyEnv_def acceptingEnv_def)

lemma processCall_flaky_first:
  assumes "ticks st = 1"
  shows "processCall flakyEnv uid n c st pc =
    (Inr (),
     st\<lparr>store := put (stamp (markFailed (markProcessing c (clock st)) ''write conflict'')
                          (clock st)) (store st),
         ticks := 3,
         trace := trace st @
           [SaveFailed (markProcessing c (clock st)) ''write conflict'',
            Saved (markFailed (markProcessing c (clock st)) ''write conflict'')]\<rparr>,
     Suc pc)"
proof -
  let ?c1 = "markProcessing c (clock st)"
  let ?st1 = "st\<lparr>ticks := Suc (ticks st), trace := trace st @ [SaveFailed ?c1 ''write conflict'']\<rparr>"
  have "saveError flakyEnv (ticks st) = Some ''write conflict''"
    using assms by (simp add: flakyEnv_def)
  then have "save flakyEnv ?c1 st = (Inl ''write conflict'', ?st1)"
    by (rule save_throws)
  then have t: "processCall_try flakyEnv uid n c st pc = Inl (''write conflict'', ?c1, ?st1)"
    by (rule try_first_save_throws)
  have "saveError flakyEnv (ticks ?st1) = None"
    using assms by (simp add: flakyEnv_def)
  from save_works [OF this, of "markFailed ?c1 ''write conflict''"] assms
  show ?thesis
    by (simp add: processCall_def t processCall_catch_def)
qed

lemma processCall_flaky_later:
  assumes "1 < ticks st"
  shows "processCall flakyEnv uid n c st pc =
    (Inr (),
     pace (Suc pc) n
       (st\<lparr>store := put (stamp (markCompleted (markProcessing c (clock st))
                          \<lparr>success = True, callId = Some ''exec-1'',
                           message = Some ''Call initiated successfully'', error = None\<rparr>)
                          (clock st)) (store st),
           ticks := ticks st + 3,
           trace := trace st @
             [Saved (markProcessing c (clock st)),
              Dispatched (clock st) (formatPhoneNumber (phone c)) (name c) uid
                (city c, email c, notes' c),
              Saved (markCompleted (markProcessing c (clock st))
                          \<lparr>success = True, callId = Some ''exec-1'',
                           message = Some ''Call initiated successfully'', error = None\<rparr>)]\<rparr>),
     Suc pc)"
proof -
  let ?r = "\<lparr>success = True, callId = Some ''exec-1'',
             message = Some ''Call initiated successfully'', error = None\<rparr>"
  have 1: "saveError flakyEnv (ticks st) = None" using assms by (simp add: flakyEnv_def)
  have 2: "dispatch flakyEnv (Suc (ticks st)) (formatPhoneNumber (phone c)) (name c) uid
              (city c, email c, notes' c) = Inr ?r" by (simp add: flakyEnv_def acceptingEnv_def)
  have 3: "saveError flakyEnv (Suc (Suc (ticks st))) = None" by (simp add: flakyEnv_def)
  have 4: "settled (markProcessing c (clock st)) ?r = markCompleted (markProcessing c (clock st)) ?r"
    by (simp add: settled_def truthy_def)
  have 5: "dispatchMs flakyEnv (Suc (ticks st)) = 0" by (simp add: flakyEnv_def acceptingEnv_def)
  show ?thesis
    unfolding processCall_normal [OF 1 2 3] 4 5 by simp
qed

lemmas accepting_run_defs = processCallQueue_def findPending_def processCall_accepting put_def
  pace_def delay_def sampleState_def findError_accepting formatPhoneNumber_def startsWith_def
  isDigit_def isPendingOf_def MAX_CONCURRENT_CALLS_def CALL_DELAY_def Let_def

lemmas flaky_run_defs = processCallQueue_def findPending_def processCall_flaky_first
  processCall_flaky_later put_def pace_def delay_def sampleState_def findError_flaky
  formatPhoneNumber_def startsWith_def isDigit_def isPendingOf_def MAX_CONCURRENT_CALLS_def
  CALL_DELAY_def Let_def

section \<open>Claims on phone formatting\<close>

text \<open>
  C9: for every phone string, \<open>formatPhoneNumber\<close> strips the characters that are not
  digits and returns \<open>+\<close> and the digits when the input starts with \<open>+\<close>; otherwise
  \<open>+91\<close> and the digits when exactly ten digits remain; otherwise \<open>+\<close> and the digits.
  In particular \<open>9876543210\<close> becomes \<open>+919876543210\<close> and \<open>+1 202-555-0173\<close> becomes
  \<open>+12025550173\<close>.
\<close>

theorem formatPhoneNumber_cases:
  "formatPhoneNumber p =
     (if startsWith p ''+'' then ''+'' @ filter isDigit p
      else if length (filter isDigit p) = 10 then ''+91'' @ filter isDigit p
      else ''+'' @ filter isDigit p)
   \<and> formatPhoneNumber ''9876543210'' = ''+919876543210''
   \<and> formatPhoneNumber ''+1 202-555-0173'' = ''+12025550173''"
  by (simp add: formatPhoneNumber_def startsWith_def isDigit_def)

theorem formatPhoneNumber_cases_witness:
  "formatPhoneNumber ''(987) 654-3210'' = ''+919876543210''
   \<and> formatPhoneNumber ''+44 20 7946 0958'' = ''+442079460958''
   \<and> formatPhoneNumber ''12345'' = ''+12345''"
  using formatPhoneNumber_cases [of "''(987) 654-3210''"]
    formatPhoneNumber_cases [of "''+44 20 7946 0958''"]
    formatPhoneNumber_cases [of "''12345''"]
  by (simp add: startsWith_def isDigit_def)

text \<open>
  C10: \<open>formatPhoneNumber\<close> is idempotent, because its result is a \<open>+\<close> followed by
  digits only; and the normalisation that \<open>triggerOutboundCall\<close> applies to the number it
  is given leaves such a result as it is, so the number in the request is the one the
  processor formatted.
\<close>

theorem formatPhoneNumber_idempotent:
  "formatPhoneNumber (formatPhoneNumber p) = formatPhoneNumber p
   \<and> (\<exists>ds. formatPhoneNumber p = ''+'' @ ds \<and> list_all isDigit ds)
   \<and> recipient_phone_number (formatPhoneNumber p) = formatPhoneNumber p"
proof -
  obtain ds where ds: "formatPhoneNumber p = CHR ''+'' # filter isDigit ds"
    using formatPhoneNumber_shape by blast
  have plus: "\<not> isDigit CHR ''+''"
    by (simp add: isDigit_def)
  have 1: "formatPhoneNumber (CHR ''+'' # filter isDigit ds) = CHR ''+'' # filter isDigit ds"
    by (simp add: formatPhoneNumber_def startsWith_def plus)
  have 2: "list_all isDigit (filter isDigit ds)"
    by (simp add: list_all_iff)
  have "filter (\<lambda>c. \<not> (isSpace c \<or> c = CHR ''-'')) (CHR ''+'' # filter isDigit ds)
          = CHR ''+'' # filter isDigit ds"
    using digits_filter_clean [of ds] by (simp add: isSpace_def)
  then have 3: "recipient_phone_number (CHR ''+'' # filter isDigit ds) = CHR ''+'' # filter isDigit ds"
    by (simp add: recipient_phone_number_def trim_plus_digits startsWith_def)
  show ?thesis
    using 1 2 3 ds by simp
qed

section \<open>Claims on the exclusion of a second run\<close>

text \<open>
  C3: when \<open>activeProcessors\<close> already holds the owner, \<open>processCallQueue\<close> returns at
  once: nothing is fetched, dispatched or saved, and no attempt is counted; the whole
  state is as before.
\<close>

theorem processCallQueue_already_running:
  "activeProcessors st uid = Some True \<Longrightarrow> processCallQueue env uid st = (AlreadyRunning, st)"
  by (simp add: processCallQueue_def)

theorem processCallQueue_already_running_witness:
  "processCallQueue acceptingEnv ''U''
     ((sampleState [sampleEntry 1 ''U'' ''9876543210'' pending 0])\<lparr>activeProcessors := [''U'' \<mapsto> True]\<rparr>)
   = (AlreadyRunning,
      (sampleState [sampleEntry 1 ''U'' ''9876543210'' pending 0])\<lparr>activeProcessors := [''U'' \<mapsto> True]\<rparr>)"
  using processCallQueue_already_running
    [of "(sampleState [sampleEntry 1 ''U'' ''9876543210'' pending 0])\<lparr>activeProcessors := [''U'' \<mapsto> True]\<rparr>"
        "''U''" acceptingEnv]
  by simp

section \<open>Claims on the routes\<close>

lemma count_changed:
  "length (filter (\<lambda>(a, b). a \<noteq> b)
       (zip es (map (\<lambda>e. if userId e = uid \<and> status e = failed
                         then stamp (e\<lparr>status := pending\<rparr>) now else e) es)))
   = length (filter (\<lambda>e. userId e = uid \<and> status e = failed) es)"
proof (induction es)
  case Nil
  then show ?case by simp
next
  case (Cons e es)
  have "status e = failed \<Longrightarrow> e \<noteq> stamp (e\<lparr>status := pending\<rparr>) now"
    by (auto dest: arg_cong [where f = status])
  with Cons show ?case by auto
qed

text \<open>
  C7, as amended: retry-all sets the status to \<open>pending\<close> on exactly the owner's entries
  whose status is \<open>failed\<close>, and the update stamps \<open>updatedAt\<close> of these entries with its
  time; it leaves every other entry, and every other field of the reset entries, as it
  was. When at least one entry was reset it answers with \<open>retriedCount\<close> equal to the
  number of entries that changed and starts the processor for the owner; when none was,
  it answers "No failed calls found" (404), carries no count, changes nothing and does
  not start the processor.
\<close>

theorem retry_all_resets_failed:
  assumes "retry_all None now uid es = (r, es', started)"
  shows "length es' = length es
    \<and> (\<forall>i<length es. es' ! i =
          (if userId (es ! i) = uid \<and> status (es ! i) = failed
           then (es ! i)\<lparr>status := pending, updatedAt := now\<rparr>
           else es ! i))
    \<and> (if \<exists>e\<in>set es. userId e = uid \<and> status e = failed
        then r = RetryOk (length (filter (\<lambda>(a, b). a \<noteq> b) (zip es es')))
             \<and> started = (uid \<noteq> [])
        else r = RetryNotFound ''No failed calls found'' \<and> es' = es \<and> \<not> started)"
proof -
  let ?f = "\<lambda>e. if userId e = uid \<and> status e = failed
                 then stamp (e\<lparr>status := pending\<rparr>) now else e"
  let ?n = "length (filter (\<lambda>e. userId e = uid \<and> status e = failed) es)"
  from assms have es': "es' = map ?f es"
    by (auto simp: retry_all_def updateMany_failed_to_pending_def Let_def split: if_splits)
  from assms have r: "r = (if ?n = 0 then RetryNotFound ''No failed calls found'' else RetryOk ?n)"
    by (auto simp: retry_all_def updateMany_failed_to_pending_def Let_def split: if_splits)
  from assms have st: "started = (?n \<noteq> 0 \<and> uid \<noteq> [])"
    by (auto simp: retry_all_def updateMany_failed_to_pending_def Let_def split: if_splits)
  have n: "(?n = 0) = (\<not> (\<exists>e\<in>set es. userId e = uid \<and> status e = failed))"
    by (auto simp: filter_empty_conv)
  have same: "\<not> (\<exists>e\<in>set es. userId e = uid \<and> status e = failed) \<Longrightarrow> map ?f es = es"
    by (induction es) auto
  have fields: "?f e = (if userId e = uid \<and> status e = failed
                        then e\<lparr>status := pending, updatedAt := now\<rparr> else e)" for e
    by (simp add: stamp_def)
  have 1: "length es' = length es" by (simp add: es')
  have 2: "\<forall>i<length es. es' ! i =
          (if userId (es ! i) = uid \<and> status (es ! i) = failed
           then (es ! i)\<lparr>status := pending, updatedAt := now\<rparr>
           else es ! i)"
    using fields by (simp add: es')
  have 3: "r = RetryOk (length (filter (\<lambda>(a, b). a \<noteq> b) (zip es es'))) \<and> started = (uid \<noteq> [])"
    if "\<exists>e\<in>set es. userId e = uid \<and> status e = failed"
    using that r st n count_changed [of es uid now] by (simp add: es')
  have 4: "r = RetryNotFound ''No failed calls found'' \<and> es' = es \<and> \<not> started"
    if "\<not> (\<exists>e\<in>set es. userId e = uid \<and> status e = failed)"
    using that r st n same by (simp add: es')
  show ?thesis
    using 1 2 3 4 by presburger
qed

theorem retry_all_resets_failed_witness:
  "retry_all None 50 ''U''
     [sampleEntry 1 ''U'' ''9876543210'' failed 1, sampleEntry 2 ''U'' ''9876543211'' completed 1,
      sampleEntry 3 ''U'' ''9876543212'' failed 2]
   = (RetryOk 2,
      [(sampleEntry 1 ''U'' ''9876543210'' pending 1)\<lparr>updatedAt := 50\<rparr>,
       sampleEntry 2 ''U'' ''9876543211'' completed 1,
       (sampleEntry 3 ''U'' ''9876543212'' pending 2)\<lparr>updatedAt := 50\<rparr>], True)
   \<and> RetryOk 2 = RetryOk (length (filter (\<lambda>(a, b). a \<noteq> b)
        (zip [sampleEntry 1 ''U'' ''9876543210'' failed 1,
              sampleEntry 2 ''U'' ''9876543211'' completed 1,
              sampleEntry 3 ''U'' ''9876543212'' failed 2]
             [(sampleEntry 1 ''U'' ''9876543210'' pending 1)\<lparr>updatedAt := 50\<rparr>,
              sampleEntry 2 ''U'' ''9876543211'' completed 1,
              (sampleEntry 3 ''U'' ''9876543212'' pending 2)\<lparr>updatedAt := 50\<rparr>])))
   \<and> True = (''U'' \<noteq> [])"
proof -
  have h: "retry_all None 50 ''U''
     [sampleEntry 1 ''U'' ''9876543210'' failed 1, sampleEntry 2 ''U'' ''9876543211'' completed 1,
      sampleEntry 3 ''U'' ''9876543212'' failed 2]
   = (RetryOk 2,
      [(sampleEntry 1 ''U'' ''9876543210'' pending 1)\<lparr>updatedAt := 50\<rparr>,
       sampleEntry 2 ''U'' ''9876543211'' completed 1,
       (sampleEntry 3 ''U'' ''9876543212'' pending 2)\<lparr>updatedAt := 50\<rparr>], True)"
    by (simp add: retry_all_def updateMany_failed_to_pending_def sampleEntry_def stamp_def)
  have e: "\<exists>e\<in>set [sampleEntry 1 ''U'' ''9876543210'' failed 1,
      sampleEntry 2 ''U'' ''9876543211'' completed 1,
      sampleEntry 3 ''U'' ''9876543212'' failed 2]. userId e = ''U'' \<and> status e = failed"
    by (simp add: sampleEntry_def)
  show ?thesis
    using h e retry_all_resets_failed [OF h] by presburger
qed

text \<open>
  The claim as first stated promises a \<open>retriedCount\<close> in every answer; for an owner
  without failed entries the answer is the 404 instead, and the processor is not started.
\<close>

theorem retry_all_none_failed_counterexample:
  "retry_all None 50 ''U'' [sampleEntry 2 ''U'' ''9876543211'' completed 1]
     = (RetryNotFound ''No failed calls found'', [sampleEntry 2 ''U'' ''9876543211'' completed 1], False)
   \<and> fst (retry_all None 50 ''U'' [sampleEntry 2 ''U'' ''9876543211'' completed 1]) \<noteq> RetryOk 0"
  by (simp add: retry_all_def updateMany_failed_to_pending_def sampleEntry_def)

lemma contactsToSave_length: "length (contactsToSave uid now k cs) = length cs"
  by (simp add: contactsToSave_def)

lemma contactsToSave_fields:
  "map (\<lambda>e. (name e, phone e, userId e, status e, callAttempts e)) (contactsToSave uid now k cs)
     = map (\<lambda>c. (name c, phone c, uid, pending, 0)) cs"
proof -
  have "map (\<lambda>x. (name (snd x), phone (snd x), uid, pending, 0::nat)) (enumerate n cs)
          = map (\<lambda>c. (name c, phone c, uid, pending, 0)) cs" for n
    by (induction cs arbitrary: n) simp_all
  then show ?thesis
    by (simp add: contactsToSave_def case_prod_beta comp_def)
qed

lemma contactsToSave_email:
  "map email (contactsToSave ''U'' 7 2
      [(sampleContact ''9876543210'')\<lparr>email := Some ''Ravi.K@Example.COM''\<rparr>])
     = [Some ''ravi.k@example.com'']"
  by (simp add: contactsToSave_def sampleContact_def toLowerCase_def)

lemma contactsToSave_owner: "filter (\<lambda>e. userId e = uid) (contactsToSave uid now k cs) = contactsToSave uid now k cs"
  by (simp add: contactsToSave_def case_prod_beta)

lemma findDuplicates_owner:
  "findDuplicates cs (filter (\<lambda>e. userId e = uid \<and> phone e \<in> phone ` set cs) es)
     = map phone (filter (\<lambda>c. \<exists>e\<in>set es. userId e = uid \<and> phone e = phone c) cs)"
proof -
  have "(phone c \<in> phone ` {e \<in> set es. userId e = uid \<and> phone e \<in> phone ` set cs})
          = (\<exists>e\<in>set es. userId e = uid \<and> phone e = phone c)" if "c \<in> set cs" for c
    using that by (auto simp: image_iff)
  then show ?thesis
    by (auto simp: findDuplicates_def Let_def intro!: arg_cong [where f = "map phone"] filter_cong)
qed

text \<open>
  C8, as amended: when the upload asks for the duplicate check (form field
  \<open>checkDuplicates\<close> equal to \<open>true\<close>), every uploaded contact whose phone is already among
  the owner's entries is listed in the answer's duplicates; without the field the list is
  empty. Either way every parsed contact is inserted as a new \<open>pending\<close> entry with no
  attempts, so the owner's entry count grows by the number of contacts.
\<close>

theorem upload_keeps_duplicates:
  assumes "req_file req = Some pr" and "parse_success pr" and "contacts pr \<noteq> []"
    and "req_userId req = Some uid" and "uid \<noteq> []"
  shows "\<exists>summary saved.
      upload None None now req es =
        (UploadCreated summary saved (errors pr)
           (if req_checkDuplicates req = Some ''true''
            then map phone (filter (\<lambda>c. \<exists>e\<in>set es. userId e = uid \<and> phone e = phone c) (contacts pr))
            else []),
         es @ contactsToSave uid now (freshId es) (contacts pr), True)
      \<and> savedContacts summary = length (contacts pr)
      \<and> map (\<lambda>e. (name e, phone e, userId e, status e, callAttempts e))
           (contactsToSave uid now (freshId es) (contacts pr))
         = map (\<lambda>c. (name c, phone c, uid, pending, 0)) (contacts pr)
      \<and> length (filter (\<lambda>e. userId e = uid) (es @ contactsToSave uid now (freshId es) (contacts pr)))
         = length (filter (\<lambda>e. userId e = uid) es) + length (contacts pr)"
  using assms
  by (simp add: upload_def Let_def truthy_def contactsToSave_length contactsToSave_fields
      contactsToSave_owner findDuplicates_owner)

theorem upload_keeps_duplicates_witness:
  "req_file (sampleUpload (Some ''true'') ''9876543210'')
     = Some \<lparr>parse_success = True, contacts = [sampleContact ''9876543210''], errors = [],
             totalRows = 1, validRows = 1\<rparr>
   \<and> req_userId (sampleUpload (Some ''true'') ''9876543210'') = Some ''U''
   \<and> (\<exists>summary saved.
        upload None None 7 (sampleUpload (Some ''true'') ''9876543210'')
          [sampleEntry 1 ''U'' ''9876543210'' completed 1]
        = (UploadCreated summary saved [] [''9876543210''],
           [sampleEntry 1 ''U'' ''9876543210'' completed 1,
            (sampleEntry 2 ''U'' ''9876543210'' pending 0)\<lparr>name := ''Ravi'', createdAt := 7,
               updatedAt := 7\<rparr>],
           True))"
proof -
  let ?pr = "\<lparr>parse_success = True, contacts = [sampleContact ''9876543210''], errors = [],
             totalRows = 1, validRows = 1\<rparr>"
  have h1: "req_file (sampleUpload (Some ''true'') ''9876543210'') = Some ?pr"
    by (simp add: sampleUpload_def)
  have h2: "parse_success ?pr" by simp
  have h3: "contacts ?pr \<noteq> []" by simp
  have h4: "req_userId (sampleUpload (Some ''true'') ''9876543210'') = Some ''U''"
    by (simp add: sampleUpload_def)
  have h5: "''U'' \<noteq> []" by simp
  let ?es = "[sampleEntry 1 ''U'' ''9876543210'' completed 1]"
  from upload_keeps_duplicates [OF h1 h2 h3 h4 h5, of 7 ?es]
  obtain summary saved where u:
    "upload None None 7 (sampleUpload (Some ''true'') ''9876543210'') ?es =
       (UploadCreated summary saved (errors ?pr)
          (if req_checkDuplicates (sampleUpload (Some ''true'') ''9876543210'') = Some ''true''
           then map phone (filter (\<lambda>c. \<exists>e\<in>set ?es. userId e = ''U'' \<and> phone e = phone c)
                            (contacts ?pr))
           else []),
        ?es @ contactsToSave ''U'' 7 (freshId ?es) (contacts ?pr), True)"
    by blast
  have d: "(if req_checkDuplicates (sampleUpload (Some ''true'') ''9876543210'') = Some ''true''
           then map phone (filter (\<lambda>c. \<exists>e\<in>set ?es. userId e = ''U'' \<and> phone e = phone c)
                            (contacts ?pr))
           else []) = [''9876543210'']"
    by (simp add: sampleUpload_def sampleEntry_def sampleContact_def)
  have n: "?es @ contactsToSave ''U'' 7 (freshId ?es) (contacts ?pr) =
      [sampleEntry 1 ''U'' ''9876543210'' completed 1,
       (sampleEntry 2 ''U'' ''9876543210'' pending 0)\<lparr>name := ''Ravi'', createdAt := 7,
               updatedAt := 7\<rparr>]"
    by (simp add: sampleEntry_def sampleContact_def contactsToSave_def freshId_def)
  have e: "errors ?pr = []" by simp
  show ?thesis
    using h1 h4 u unfolding d n e by blast
qed

text \<open>
  The claim as first stated has the duplicate reported by default; an upload that does not
  send the field inserts the row and reports nothing.
\<close>

theorem upload_without_flag_counterexample:
  "upload None None 7 (sampleUpload None ''9876543210'')
     [sampleEntry 1 ''U'' ''9876543210'' completed 1]
   = (UploadCreated
        \<lparr>sum_totalRows = 1, sum_validRows = 1, savedContacts = 1, errorCount = 0,
         duplicatesFound = 0\<rparr>
        [(2, ''Ravi'', ''9876543210'', pending)] [] [],
      [sampleEntry 1 ''U'' ''9876543210'' completed 1,
       (sampleEntry 2 ''U'' ''9876543210'' pending 0)\<lparr>name := ''Ravi'', createdAt := 7,
               updatedAt := 7\<rparr>],
      True)"
  by (simp add: upload_def sampleUpload_def sampleEntry_def sampleContact_def contactsToSave_def
      freshId_def truthy_def Let_def)

section \<open>Claims on one entry of a batch\<close>



section \<open>Claims on an exception in one entry\<close>

text \<open>
  C6, as amended: take any fetch of a run (a state \<open>st0\<close> and a counter \<open>pc0\<close> from
  which the loop yields what the loop of the run yields: the first fetch is one, and
  so is, by \<open>processLoop_next_batch\<close>, the fetch after each batch that ends normally),
  the entries \<open>pre\<close> of its batch that were processed without ending the run, and the
  next entry \<open>c\<close>, whose \<open>try\<close> block raises an exception (from the first save, the
  dispatch or the second save). Identifiers are distinct in the store. The exception is
  caught for that entry: the handler marks the entry \<open>failed\<close> with the exception's
  message (\<open>Processing error\<close> when the message is empty) and saves it. When that save
  works, the entry is stored so, the counter of processed entries is increased, the batch
  goes on with the remaining entries \<open>rest\<close>, and after the batch the run pauses and
  fetches the next batch. When that save throws too, its exception is not caught per
  entry: it ends the batch and the run through the run-level handler, which prints the
  processor's error line and releases the owner; the entry is left \<open>pending\<close> or
  \<open>processing\<close>, and the remaining entries of the batch, like every other pending entry
  of the owner, stay in the store as they were, \<open>pending\<close>.
\<close>

theorem processCallQueue_entry_exception:
  assumes run: "activeProcessors stI uid \<noteq> Some True"
    and reach: "processLoop env uid (stI\<lparr>activeProcessors := (activeProcessors stI)(uid \<mapsto> True)\<rparr>) 0
                  = processLoop env uid st0 pc0"
    and fetch: "findPending env uid st0 = (Inr (pre @ c # rest), stF)"
    and before: "processBatch env uid (length (pre @ c # rest)) pre stF pc0 = (Inr (), st, pc)"
    and throws: "processCall_try env uid (length (pre @ c # rest)) c st pc = Inl (msg, c', st1)"
    and ids: "distinct (map entryId (store st0))"
  shows "entryId c' = entryId c
    \<and> (saveError env (ticks st1) = None \<longrightarrow>
         processBatch env uid (length (pre @ c # rest)) (pre @ c # rest) stF pc0 =
           processBatch env uid (length (pre @ c # rest)) rest
             (st1\<lparr>store := put (c'\<lparr>status := failed,
                                      errorMessage := Some (if msg = [] then ''Processing error''
                                                            else msg),
                                      updatedAt := clock st1\<rparr>) (store st1),
                  ticks := Suc (ticks st1),
                  trace := trace st1 @
                    [Saved (c'\<lparr>status := failed,
                                errorMessage := Some (if msg = [] then ''Processing error''
                                                      else msg)\<rparr>)]\<rparr>)
             (Suc pc)
         \<and> processLoop env uid st0 pc0 =
             (case processBatch env uid (length (pre @ c # rest)) rest
                     (st1\<lparr>store := put (c'\<lparr>status := failed,
                                      errorMessage := Some (if msg = [] then ''Processing error''
                                                            else msg),
                                      updatedAt := clock st1\<rparr>) (store st1),
                          ticks := Suc (ticks st1),
                          trace := trace st1 @
                            [Saved (c'\<lparr>status := failed,
                                errorMessage := Some (if msg = [] then ''Processing error''
                                                      else msg)\<rparr>)]\<rparr>)
                     (Suc pc) of
                (Inl m, s, p) \<Rightarrow> (Inl m, s, p)
              | (Inr _, s, p) \<Rightarrow> processLoop env uid (delay 1000 s) p)
         \<and> c'\<lparr>status := failed,
               errorMessage := Some (if msg = [] then ''Processing error'' else msg),
               updatedAt := clock st1\<rparr>
             \<in> set (put (c'\<lparr>status := failed,
                               errorMessage := Some (if msg = [] then ''Processing error''
                                                     else msg),
                               updatedAt := clock st1\<rparr>) (store st1)))
    \<and> (\<forall>m. saveError env (ticks st1) = Some m \<longrightarrow>
         processCallQueue env uid stI =
           (ProcessorError m,
            st1\<lparr>ticks := Suc (ticks st1),
                trace := trace st1 @
                  [SaveFailed (c'\<lparr>status := failed,
                                   errorMessage := Some (if msg = [] then ''Processing error''
                                                         else msg)\<rparr>) m],
                activeProcessors := (activeProcessors st1)(uid := None)\<rparr>)
         \<and> (\<forall>e\<in>set (store st1). entryId e = entryId c \<longrightarrow>
               status e = pending \<or> status e = processing)
         \<and> (\<forall>e\<in>set rest. e \<in> set (store st1) \<and> status e = pending)
         \<and> (\<forall>e\<in>set (store st0). isPendingOf uid e \<and> e \<notin> set pre \<and> e \<noteq> c \<longrightarrow>
               e \<in> set (store st1)))"
proof -
  define n where "n = length (pre @ c # rest)"
  note fetch' = fetch
  note before = before [folded n_def]
  note throws = throws [folded n_def]
  let ?d = "markFailed c' (if msg = [] then ''Processing error'' else msg)"
  let ?ok = "st1\<lparr>store := put (stamp ?d (clock st1)) (store st1), ticks := Suc (ticks st1),
                  trace := trace st1 @ [Saved ?d]\<rparr>"
  let ?ko = "\<lambda>m. st1\<lparr>ticks := Suc (ticks st1), trace := trace st1 @ [SaveFailed ?d m]\<rparr>"
  have d: "?d = c'\<lparr>status := failed,
                     errorMessage := Some (if msg = [] then ''Processing error'' else msg)\<rparr>"
    by (simp add: markFailed_def)
  have sd: "stamp (c'\<lparr>status := failed,
                     errorMessage := Some (if msg = [] then ''Processing error'' else msg)\<rparr>)
              (clock st1)
      = c'\<lparr>status := failed,
            errorMessage := Some (if msg = [] then ''Processing error'' else msg),
            updatedAt := clock st1\<rparr>"
    by (simp add: stamp_def)
  have id: "entryId c' = entryId c"
    using throws by (rule try_ids(2))
  have p: "processCall env uid n c st pc = processCall_catch env msg c' st1 pc"
    using throws by (simp add: processCall_def)
  have split: "processBatch env uid n (pre @ c # rest) stF pc0
      = processBatch env uid n (c # rest) st pc"
    using before by (simp add: processBatch_append)
  have loop: "processLoop env uid st0 pc0 =
      (case processBatch env uid n (pre @ c # rest) stF pc0 of
         (Inl m, s, p) \<Rightarrow> (Inl m, s, p)
       | (Inr _, s, p) \<Rightarrow> processLoop env uid (delay 1000 s) p)"
    using fetch by (simp add: processLoop.simps [of env uid st0 pc0] n_def)
  \<comment> \<open>the entries of the store keep their identifiers up to the exception\<close>
  have sF: "store stF = store st0"
    using findPending_Inr(1) [OF fetch] .
  have fetched: "set (pre @ c # rest) \<subseteq> set (filter (isPendingOf uid) (store st0))"
    using findPending_Inr(2) [OF fetch] .
  have dist: "distinct (map entryId (pre @ c # rest))"
    using findPending_distinct [OF fetch ids] .
  have inj: "inj_on entryId (set (store st0))"
    using ids by (simp add: distinct_map)
  have adv: "list_all2 advanced (store stF) (store st)"
    using processBatch_Inr [OF before] by simp
  have ids_st: "map entryId (store st) = map entryId (store st0)"
    using advanced_ids [OF adv] sF by simp
  have ids_st1: "map entryId (store st1) = map entryId (store st0)"
    using try_ids(1) [OF throws] ids_st by simp
  have c0: "c \<in> set (store st0)" "isPendingOf uid c"
    using fetched by auto
  have c_pre: "entryId c \<notin> entryId ` set pre"
    using dist by auto
  have c_st: "c \<in> set (store st)"
    using processBatch_keeps [OF before _ c_pre] c0(1) sF by simp
  have keep: "e \<in> set (store st1)"
    if "e \<in> set (store st0)" "e \<notin> set pre" "e \<noteq> c" for e
  proof -
    have "set pre \<subseteq> set (store st0)" using fetched by auto
    with inj that have "entryId e \<notin> entryId ` set pre"
      by (auto dest: inj_onD)
    with that(1) sF have "e \<in> set (store st)"
      using processBatch_keeps [OF before] by simp
    moreover have "entryId e \<noteq> entryId c"
      using inj that c0(1) by (auto dest: inj_onD)
    ultimately show ?thesis
      using try_keeps [OF throws] by blast
  qed
  have rest_kept: "e \<in> set (store st1) \<and> status e = pending" if "e \<in> set rest" for e
  proof -
    from that fetched have "e \<in> set (store st0)" "isPendingOf uid e" by auto
    moreover from that dist have "e \<notin> set pre" "e \<noteq> c" by auto
    ultimately show ?thesis using keep by (simp add: isPendingOf_def)
  qed
  have own: "status e = pending \<or> status e = processing"
    if "e \<in> set (store st1)" "entryId e = entryId c" for e
  proof -
    have "distinct (map entryId (store st))" using ids ids_st by simp
    from try_leaves [OF throws that c_st this]
    show ?thesis using c0(2) by (auto simp: isPendingOf_def)
  qed
  have stored: "stamp ?d (clock st1) \<in> set (put (stamp ?d (clock st1)) (store st1))"
  proof -
    have "entryId c \<in> set (map entryId (store st1))"
      using c0(1) ids_st1 by simp
    then obtain e where "e \<in> set (store st1)" "entryId e = entryId c" by auto
    then show ?thesis using id by (simp add: put_mem)
  qed
  \<comment> \<open>the handler's save works\<close>
  have ok: "processBatch env uid n (pre @ c # rest) stF pc0 = processBatch env uid n rest ?ok (Suc pc)"
    if "saveError env (ticks st1) = None"
    unfolding split using save_works [OF that, of ?d] by (simp add: p processCall_catch_def Let_def)
  \<comment> \<open>the handler's save throws\<close>
  have ko: "processBatch env uid n (pre @ c # rest) stF pc0 = (Inl m, ?ko m, pc)"
    if "saveError env (ticks st1) = Some m" for m
    unfolding split using save_throws [OF that, of ?d] by (simp add: p processCall_catch_def Let_def)
  have ko_run: "processCallQueue env uid stI =
      (ProcessorError m, (?ko m)\<lparr>activeProcessors := (activeProcessors st1)(uid := None)\<rparr>)"
    if "saveError env (ticks st1) = Some m" for m
  proof -
    have "processLoop env uid st0 pc0 = (Inl m, ?ko m, pc)"
      unfolding loop ko [OF that] by simp
    with reach run show ?thesis
      by (simp add: processCallQueue_def Let_def)
  qed
  have A: "saveError env (ticks st1) = None \<longrightarrow>
      processBatch env uid n (pre @ c # rest) stF pc0 = processBatch env uid n rest ?ok (Suc pc)
      \<and> processLoop env uid st0 pc0 =
           (case processBatch env uid n rest ?ok (Suc pc) of
              (Inl m, s, p) \<Rightarrow> (Inl m, s, p)
            | (Inr _, s, p) \<Rightarrow> processLoop env uid (delay 1000 s) p)
      \<and> stamp ?d (clock st1) \<in> set (put (stamp ?d (clock st1)) (store st1))"
    using ok loop stored by simp
  have B: "\<forall>m. saveError env (ticks st1) = Some m \<longrightarrow>
      processCallQueue env uid stI =
        (ProcessorError m, (?ko m)\<lparr>activeProcessors := (activeProcessors st1)(uid := None)\<rparr>)
      \<and> (\<forall>e\<in>set (store st1). entryId e = entryId c \<longrightarrow> status e = pending \<or> status e = processing)
      \<and> (\<forall>e\<in>set rest. e \<in> set (store st1) \<and> status e = pending)
      \<and> (\<forall>e\<in>set (store st0). isPendingOf uid e \<and> e \<notin> set pre \<and> e \<noteq> c \<longrightarrow> e \<in> set (store st1))"
    using ko_run own rest_kept keep by blast
  show ?thesis
    using id A B unfolding d sd n_def by blast
qed

theorem processCallQueue_entry_exception_witness:
  "saveError flakyEnv 2 = None
   \<and> (case processCallQueue flakyEnv ''U''
          (sampleState
            [sampleEntry 1 ''U'' ''9876543210'' pending 0,
             sampleEntry 2 ''U'' ''9876543211'' pending 0,
             sampleEntry 3 ''U'' ''9876543212'' pending 0,
             sampleEntry 4 ''U'' ''9876543213'' pending 0,
             sampleEntry 5 ''U'' ''9876543214'' pending 0,
             sampleEntry 6 ''U'' ''9876543215'' pending 0])
       of (l, s) \<Rightarrow> (l, map (\<lambda>e. (status e, errorMessage e, callAttempts e)) (store s)))
     = (ProcessingComplete,
        [(failed, Some ''write conflict'', 1), (completed, None, 1), (completed, None, 1),
         (completed, None, 1), (completed, None, 1), (completed, None, 1)])
   \<and> saveError failingHandlerEnv 2 = Some ''write conflict''
   \<and> (case processCallQueue failingHandlerEnv ''U''
          (sampleState
            [sampleEntry 1 ''U'' ''9876543210'' pending 0,
             sampleEntry 2 ''U'' ''9876543211'' pending 0,
             sampleEntry 3 ''U'' ''9876543212'' pending 0,
             sampleEntry 4 ''U'' ''9876543213'' pending 0,
             sampleEntry 5 ''U'' ''9876543214'' pending 0,
             sampleEntry 6 ''U'' ''9876543215'' pending 0])
       of (l, s) \<Rightarrow> (l, map (\<lambda>e. (status e, errorMessage e, callAttempts e)) (store s),
                        activeProcessors s ''U''))
     = (ProcessorError ''write conflict'',
        [(pending, None, 0), (pending, None, 0), (pending, None, 0),
         (pending, None, 0), (pending, None, 0), (pending, None, 0)], None)"
proof -
  let ?e1 = "sampleEntry 1 ''U'' ''9876543210'' pending 0"
  let ?e2 = "sampleEntry 2 ''U'' ''9876543211'' pending 0"
  let ?e3 = "sampleEntry 3 ''U'' ''9876543212'' pending 0"
  let ?e4 = "sampleEntry 4 ''U'' ''9876543213'' pending 0"
  let ?e5 = "sampleEntry 5 ''U'' ''9876543214'' pending 0"
  let ?e6 = "sampleEntry 6 ''U'' ''9876543215'' pending 0"
  let ?I = "sampleState [?e1, ?e2, ?e3, ?e4, ?e5, ?e6]"
  let ?L = "?I\<lparr>activeProcessors := (activeProcessors ?I)(''U'' \<mapsto> True)\<rparr>"
  let ?F = "?L\<lparr>ticks := 1, trace := [Fetched 5]\<rparr>"
  let ?c1 = "markProcessing ?e1 0"
  let ?T = "?F\<lparr>ticks := 2, trace := [Fetched 5, SaveFailed ?c1 ''write conflict'']\<rparr>"
  have run: "activeProcessors ?I ''U'' \<noteq> Some True"
    by (simp add: sampleState_def)
  have ids: "distinct (map entryId (store ?L))"
    by (simp add: sampleState_def)
  have t2: "ticks ?T = 2" by simp
  \<comment> \<open>the handler's save works: the run goes on, into the second batch\<close>
  have reach: "processLoop flakyEnv ''U'' ?L 0 = processLoop flakyEnv ''U'' ?L 0" ..
  have fetch: "findPending flakyEnv ''U'' ?L = (Inr ([] @ ?e1 # [?e2, ?e3, ?e4, ?e5]), ?F)"
    by (simp add: findPending_def findError_flaky sampleState_def isPendingOf_def
        MAX_CONCURRENT_CALLS_def)
  have before: "processBatch flakyEnv ''U'' (length ([] @ ?e1 # [?e2, ?e3, ?e4, ?e5])) [] ?F 0
      = (Inr (), ?F, 0)"
    by simp
  have throws: "processCall_try flakyEnv ''U'' (length ([] @ ?e1 # [?e2, ?e3, ?e4, ?e5])) ?e1 ?F 0
      = Inl (''write conflict'', ?c1, ?T)"
    by (simp add: processCall_try_def save_def flakyEnv_def sampleState_def Let_def)
  have ok: "saveError flakyEnv 2 = None"
    by (simp add: flakyEnv_def)
  note a = processCallQueue_entry_exception [OF run reach fetch before throws ids]
  have v: "(case processCallQueue flakyEnv ''U'' ?I
       of (l, s) \<Rightarrow> (l, map (\<lambda>e. (status e, errorMessage e, callAttempts e)) (store s)))
     = (ProcessingComplete,
        [(failed, Some ''write conflict'', 1), (completed, None, 1), (completed, None, 1),
         (completed, None, 1), (completed, None, 1), (completed, None, 1)])"
    by (simp add: flaky_run_defs)
  \<comment> \<open>the handler's save throws: the run ends\<close>
  have reach': "processLoop failingHandlerEnv ''U'' ?L 0 = processLoop failingHandlerEnv ''U'' ?L 0" ..
  have fetch': "findPending failingHandlerEnv ''U'' ?L = (Inr ([] @ ?e1 # [?e2, ?e3, ?e4, ?e5]), ?F)"
    by (simp add: findPending_def failingHandlerEnv_def acceptingEnv_def sampleState_def
        isPendingOf_def MAX_CONCURRENT_CALLS_def)
  have before': "processBatch failingHandlerEnv ''U'' (length ([] @ ?e1 # [?e2, ?e3, ?e4, ?e5])) [] ?F 0
      = (Inr (), ?F, 0)"
    by simp
  have throws': "processCall_try failingHandlerEnv ''U'' (length ([] @ ?e1 # [?e2, ?e3, ?e4, ?e5])) ?e1 ?F 0
      = Inl (''write conflict'', ?c1, ?T)"
    by (simp add: processCall_try_def save_def failingHandlerEnv_def sampleState_def Let_def)
  have ko: "saveError failingHandlerEnv 2 = Some ''write conflict''"
    by (simp add: failingHandlerEnv_def)
  note b = processCallQueue_entry_exception [OF run reach' fetch' before' throws' ids]
  from b ko t2 have "processCallQueue failingHandlerEnv ''U'' ?I =
           (ProcessorError ''write conflict'',
            ?T\<lparr>ticks := Suc (ticks ?T),
                trace := trace ?T @
                  [SaveFailed (?c1\<lparr>status := failed,
                                   errorMessage := Some (if ''write conflict'' = [] then ''Processing error''
                                                         else ''write conflict'')\<rparr>) ''write conflict''],
                activeProcessors := (activeProcessors ?T)(''U'' := None)\<rparr>)"
    by presburger
  then have w: "(case processCallQueue failingHandlerEnv ''U'' ?I
       of (l, s) \<Rightarrow> (l, map (\<lambda>e. (status e, errorMessage e, callAttempts e)) (store s),
                        activeProcessors s ''U''))
     = (ProcessorError ''write conflict'',
        [(pending, None, 0), (pending, None, 0), (pending, None, 0),
         (pending, None, 0), (pending, None, 0), (pending, None, 0)], None)"
    by (simp add: sampleState_def)
  show ?thesis
    using a ok v ko w by blast
qed

text \<open>
  The claim as first stated lets no failure of an entry end the run. With a store that is
  down, the handler's own save throws: the run ends with the processor's error line, the
  first entry is not marked \<open>failed\<close> and the second is never attempted.
\<close>

theorem store_outage_aborts_counterexample:
  "fst (processCallQueue storeDownEnv ''U''
          (sampleState [sampleEntry 1 ''U'' ''9876543210'' pending 0,
                        sampleEntry 2 ''U'' ''9876543211'' pending 0]))
     = ProcessorError ''store down''
   \<and> map (\<lambda>e. (status e, errorMessage e, callAttempts e))
        (store (snd (processCallQueue storeDownEnv ''U''
          (sampleState [sampleEntry 1 ''U'' ''9876543210'' pending 0,
                        sampleEntry 2 ''U'' ''9876543211'' pending 0]))))
     = [(pending, None, 0), (pending, None, 0)]"
  by (simp add: run_defs)

section \<open>Claims on a whole run\<close>

text \<open>
  C1: when a run for an owner ends by draining the queue (it prints that processing is
  complete, so its last fetch found nothing pending), every entry of that owner that was
  \<open>pending\<close> when the run started has status \<open>completed\<close> or \<open>failed\<close> and at least
  one attempt. The store is a list here, and an entry keeps its place and its identifier.
\<close>

theorem processCallQueue_drains_pending:
  assumes "fst (processCallQueue env uid st) = ProcessingComplete"
    and "i < length (store st)"
    and "userId (store st ! i) = uid" and "status (store st ! i) = pending"
  shows "length (store (snd (processCallQueue env uid st))) = length (store st)
    \<and> entryId (store (snd (processCallQueue env uid st)) ! i) = entryId (store st ! i)
    \<and> (status (store (snd (processCallQueue env uid st)) ! i) = completed
        \<or> status (store (snd (processCallQueue env uid st)) ! i) = failed)
    \<and> 1 \<le> callAttempts (store (snd (processCallQueue env uid st)) ! i)"
proof -
  let ?st0 = "st\<lparr>activeProcessors := (activeProcessors st)(uid \<mapsto> True)\<rparr>"
  obtain r st1 pc1 where l: "processLoop env uid ?st0 0 = (r, st1, pc1)"
    by (cases "processLoop env uid ?st0 0")
  from assms(1) have na: "activeProcessors st uid \<noteq> Some True"
    by (auto simp: processCallQueue_def)
  with assms(1) l obtain u where r: "r = Inr u"
    by (cases r) (auto simp: processCallQueue_def Let_def)
  have fin: "store (snd (processCallQueue env uid st)) = store st1"
    using na l r by (simp add: processCallQueue_def Let_def)
  have a: "list_all2 advanced (store st) (store st1)"
    and e: "filter (isPendingOf uid) (store st1) = []"
    using processLoop_Inr [of env uid ?st0 0 u st1 pc1] l r by simp_all
  have len: "length (store st1) = length (store st)"
    using a by (simp add: list_all2_lengthD)
  have adv: "advanced (store st ! i) (store st1 ! i)"
    using a assms(2) by (simp add: list_all2_nthD)
  have "store st1 ! i \<noteq> store st ! i"
  proof
    assume same: "store st1 ! i = store st ! i"
    have "store st1 ! i \<in> set (store st1)" using assms(2) len by simp
    moreover have "isPendingOf uid (store st1 ! i)"
      using same assms(3,4) by (simp add: isPendingOf_def)
    ultimately have "store st1 ! i \<in> set (filter (isPendingOf uid) (store st1))" by simp
    with e show False by simp
  qed
  with adv len show ?thesis
    unfolding fin by (auto simp: advanced_def)
qed

theorem processCallQueue_drains_pending_witness:
  "fst (processCallQueue acceptingEnv ''U''
          (sampleState [sampleEntry 1 ''U'' ''9876543210'' pending 0,
                        sampleEntry 2 ''V'' ''9876543211'' pending 0,
                        sampleEntry 3 ''U'' ''9876543212'' pending 0])) = ProcessingComplete
   \<and> map (\<lambda>e. (status e, callAttempts e))
        (store (snd (processCallQueue acceptingEnv ''U''
          (sampleState [sampleEntry 1 ''U'' ''9876543210'' pending 0,
                        sampleEntry 2 ''V'' ''9876543211'' pending 0,
                        sampleEntry 3 ''U'' ''9876543212'' pending 0]))))
     = [(completed, 1), (pending, 0), (completed, 1)]
   \<and> 1 \<le> callAttempts (store (snd (processCallQueue acceptingEnv ''U''
          (sampleState [sampleEntry 1 ''U'' ''9876543210'' pending 0,
                        sampleEntry 2 ''V'' ''9876543211'' pending 0,
                        sampleEntry 3 ''U'' ''9876543212'' pending 0]))) ! 2)"
proof -
  let ?S = "sampleState [sampleEntry 1 ''U'' ''9876543210'' pending 0,
                        sampleEntry 2 ''V'' ''9876543211'' pending 0,
                        sampleEntry 3 ''U'' ''9876543212'' pending 0]"
  have h1: "fst (processCallQueue acceptingEnv ''U'' ?S) = ProcessingComplete"
    by (simp add: run_defs)
  have h2: "2 < length (store ?S)" by (simp add: sampleState_def)
  have h3: "userId (store ?S ! 2) = ''U''" by (simp add: sampleState_def)
  have h4: "status (store ?S ! 2) = pending" by (simp add: sampleState_def)
  have v: "map (\<lambda>e. (status e, callAttempts e)) (store (snd (processCallQueue acceptingEnv ''U'' ?S)))
     = [(completed, 1), (pending, 0), (completed, 1)]"
    by (simp add: run_defs)
  show ?thesis
    using h1 v processCallQueue_drains_pending [OF h1 h2 h3 h4] by blast
qed

text \<open>
  C4: a call that enters the loop (the owner was not marked as running) always returns,
  with the queue drained or with the processor's error line, and in both cases the owner
  is no longer in \<open>activeProcessors\<close>; the marks of the other owners are as before.
\<close>

theorem processCallQueue_releases_flag:
  assumes "activeProcessors st uid \<noteq> Some True"
  shows "activeProcessors (snd (processCallQueue env uid st)) = (activeProcessors st)(uid := None)
    \<and> (fst (processCallQueue env uid st) = ProcessingComplete
        \<or> (\<exists>m. fst (processCallQueue env uid st) = ProcessorError m))"
proof -
  let ?st0 = "st\<lparr>activeProcessors := (activeProcessors st)(uid \<mapsto> True)\<rparr>"
  obtain r st1 pc1 where l: "processLoop env uid ?st0 0 = (r, st1, pc1)"
    by (cases "processLoop env uid ?st0 0")
  have "activeProcessors st1 = (activeProcessors st)(uid \<mapsto> True)"
    using processLoop_flags [OF l] by simp
  then show ?thesis
    using assms l by (cases r) (simp_all add: processCallQueue_def Let_def)
qed

theorem processCallQueue_releases_flag_witness:
  "activeProcessors (sampleState [sampleEntry 1 ''U'' ''9876543210'' pending 0]) ''U'' \<noteq> Some True
   \<and> fst (processCallQueue storeDownEnv ''U''
            (sampleState [sampleEntry 1 ''U'' ''9876543210'' pending 0]))
       = ProcessorError ''store down''
   \<and> activeProcessors (snd (processCallQueue storeDownEnv ''U''
            (sampleState [sampleEntry 1 ''U'' ''9876543210'' pending 0]))) ''U'' = None
   \<and> fst (processCallQueue acceptingEnv ''U''
            (sampleState [sampleEntry 1 ''U'' ''9876543210'' pending 0]))
       = ProcessingComplete
   \<and> activeProcessors (snd (processCallQueue acceptingEnv ''U''
            (sampleState [sampleEntry 1 ''U'' ''9876543210'' pending 0]))) ''U'' = None"
proof -
  let ?S = "sampleState [sampleEntry 1 ''U'' ''9876543210'' pending 0]"
  have h: "activeProcessors ?S ''U'' \<noteq> Some True"
    by (simp add: sampleState_def)
  have a: "fst (processCallQueue storeDownEnv ''U'' ?S) = ProcessorError ''store down''"
    by (simp add: run_defs)
  have b: "fst (processCallQueue acceptingEnv ''U'' ?S) = ProcessingComplete"
    by (simp add: run_defs)
  show ?thesis
    using h a b processCallQueue_releases_flag [OF h, of storeDownEnv]
      processCallQueue_releases_flag [OF h, of acceptingEnv]
    by simp
qed

section \<open>Claims on pacing\<close>

lemma timeline_append: "timeline (xs @ ys) = timeline xs @ timeline ys"
  by (induction xs rule: timeline.induct) simp_all

lemma paced_Cons: "ts \<noteq> [] \<Longrightarrow> paced (t # ts) = Inl t # Inr CALL_DELAY # paced ts"
  by (cases ts) simp_all

lemma spaced_Cons: "ts \<noteq> [] \<Longrightarrow> spaced d (t # ts) = (t + d \<le> hd ts \<and> spaced d ts)"
  by (cases ts) simp_all

lemma spaced_span:
  "spaced d ts \<Longrightarrow> ts \<noteq> [] \<Longrightarrow> hd ts + (length ts - 1) * d \<le> last ts"
proof (induction ts)
  case Nil
  then show ?case by simp
next
  case (Cons t ts)
  show ?case
  proof (cases ts)
    case Nil
    then show ?thesis by simp
  next
    case (Cons t' ts')
    with Cons.prems Cons.IH have "t + d \<le> t'" "t' + (length ts - 1) * d \<le> last ts"
      by simp_all
    with Cons show ?thesis by simp
  qed
qed

lemma batch_paced:
  assumes sv: "\<forall>t. saveError env t = None"
    and dp: "\<forall>t p nm u m. \<exists>r. dispatch env t p nm u m = Inr r"
  shows "pc + length calls = n \<Longrightarrow>
    \<exists>st' ts. processBatch env uid n calls st pc = (Inr (), st', n)
      \<and> length ts = length calls
      \<and> timeline (trace st') = timeline (trace st) @ paced ts
      \<and> spaced CALL_DELAY ts
      \<and> (ts \<noteq> [] \<longrightarrow> hd ts = clock st)"
proof (induction calls arbitrary: st pc)
  case Nil
  then have "processBatch env uid n [] st pc = (Inr (), st, n)
      \<and> length ([]::nat list) = length ([]::IBulkCallQueue list)
      \<and> timeline (trace st) = timeline (trace st) @ paced []
      \<and> spaced CALL_DELAY []
      \<and> (([]::nat list) \<noteq> [] \<longrightarrow> hd [] = clock st)"
    by simp
  then show ?case by blast
next
  case (Cons c rest)
  obtain r where r: "dispatch env (Suc (ticks st)) (formatPhoneNumber (phone c)) (name c) uid
      (city c, email c, notes' c) = Inr r"
    using dp by blast
  let ?S3 = "st\<lparr>store := put (stamp (settled (markProcessing c (clock st)) r)
                                   (clock st + dispatchMs env (Suc (ticks st)))) (store st),
           clock := clock st + dispatchMs env (Suc (ticks st)),
           ticks := ticks st + 3,
           trace := trace st @
             [Saved (markProcessing c (clock st)),
              Dispatched (clock st) (formatPhoneNumber (phone c)) (name c) uid
                (city c, email c, notes' c),
              Saved (settled (markProcessing c (clock st)) r)]\<rparr>"
  have p: "processCall env uid n c st pc = (Inr (), pace (Suc pc) n ?S3, Suc pc)"
    using processCall_normal [OF _ r] sv by blast
  have t3: "timeline (trace ?S3) = timeline (trace st) @ [Inl (clock st)]"
    by (simp add: timeline_append)
  show ?case
  proof (cases "rest = []")
    case True
    with Cons.prems have "Suc pc = n" by simp
    then have "processBatch env uid n (c # rest) st pc = (Inr (), ?S3, n)"
      using p True by (simp add: pace_def)
    moreover have "timeline (trace ?S3) = timeline (trace st) @ paced [clock st]"
      using t3 by simp
    ultimately have "processBatch env uid n (c # rest) st pc = (Inr (), ?S3, n)
      \<and> length [clock st] = length (c # rest)
      \<and> timeline (trace ?S3) = timeline (trace st) @ paced [clock st]
      \<and> spaced CALL_DELAY [clock st]
      \<and> ([clock st] \<noteq> [] \<longrightarrow> hd [clock st] = clock st)"
      using True by simp
    then show ?thesis by blast
  next
    case False
    with Cons.prems have lt: "Suc pc < n" by (cases rest) simp_all
    let ?S4 = "delay CALL_DELAY ?S3"
    have p4: "processCall env uid n c st pc = (Inr (), ?S4, Suc pc)"
      using p lt by (simp add: pace_def)
    have "Suc pc + length rest = n" using Cons.prems by simp
    from Cons.IH [OF this, of ?S4]
    obtain st' ts where ih: "processBatch env uid n rest ?S4 (Suc pc) = (Inr (), st', n)"
      "length ts = length rest" "timeline (trace st') = timeline (trace ?S4) @ paced ts"
      "spaced CALL_DELAY ts" "ts \<noteq> [] \<longrightarrow> hd ts = clock ?S4"
      by blast
    have ne: "ts \<noteq> []" using ih(2) False by auto
    have c4: "clock ?S4 = clock st + dispatchMs env (Suc (ticks st)) + CALL_DELAY"
      by (simp add: delay_def)
    have t4: "timeline (trace ?S4) = timeline (trace st) @ [Inl (clock st), Inr CALL_DELAY]"
      using t3 by (simp add: delay_def timeline_append)
    have a: "processBatch env uid n (c # rest) st pc = (Inr (), st', n)"
      using p4 ih(1) by simp
    have b: "timeline (trace st') = timeline (trace st) @ paced (clock st # ts)"
      using ih(3) t4 ne by (simp add: paced_Cons)
    have s: "spaced CALL_DELAY (clock st # ts)"
      using ih(4,5) ne c4 by (simp add: spaced_Cons)
    have "processBatch env uid n (c # rest) st pc = (Inr (), st', n)
      \<and> length (clock st # ts) = length (c # rest)
      \<and> timeline (trace st') = timeline (trace st) @ paced (clock st # ts)
      \<and> spaced CALL_DELAY (clock st # ts)
      \<and> (clock st # ts \<noteq> [] \<longrightarrow> hd (clock st # ts) = clock st)"
      using a b s ih(2) by simp
    then show ?thesis by blast
  qed
qed

lemma first_batch_paced:
  assumes "\<forall>t. saveError env t = None"
    and "\<forall>t p nm u m. \<exists>r. dispatch env t p nm u m = Inr r"
  shows "\<exists>st' ts. processBatch env uid (length calls) calls st 0 = (Inr (), st', length calls)
      \<and> length ts = length calls
      \<and> timeline (trace st') = timeline (trace st) @ paced ts
      \<and> spaced CALL_DELAY ts
      \<and> (calls \<noteq> [] \<longrightarrow> hd ts + (length calls - 1) * CALL_DELAY \<le> last ts)"
proof -
  from batch_paced [OF assms, of 0 calls "length calls" uid st]
  obtain st' ts where b: "processBatch env uid (length calls) calls st 0 = (Inr (), st', length calls)"
    "length ts = length calls" "timeline (trace st') = timeline (trace st) @ paced ts"
    "spaced CALL_DELAY ts"
    by auto
  have "calls \<noteq> [] \<longrightarrow> hd ts + (length calls - 1) * CALL_DELAY \<le> last ts"
  proof
    assume "calls \<noteq> []"
    with b(2) have "ts \<noteq> []" by auto
    from spaced_span [OF b(4) this] b(2) show "hd ts + (length calls - 1) * CALL_DELAY \<le> last ts"
      by simp
  qed
  with b show ?thesis by blast
qed

text \<open>
  In a later batch the counter of the run is at least the length of the batch (a full
  batch has five entries, and no batch has more), so the comparison that guards the delay
  is false for every entry of it.
\<close>

lemma pace_after_five:
  "MAX_CONCURRENT_CALLS \<le> processedCount \<Longrightarrow> batchLength \<le> MAX_CONCURRENT_CALLS \<Longrightarrow>
   pace (Suc processedCount) batchLength st = st"
  by (simp add: pace_def)

lemma batch_unpaced:
  assumes sv: "\<forall>t. saveError env t = None"
    and dp: "\<forall>t p nm u m. \<exists>r. dispatch env t p nm u m = Inr r"
  shows "n \<le> pc \<Longrightarrow>
    \<exists>st' ts. processBatch env uid n calls st pc = (Inr (), st', pc + length calls)
      \<and> length ts = length calls
      \<and> timeline (trace st') = timeline (trace st) @ map Inl ts"
proof (induction calls arbitrary: st pc)
  case Nil
  then have "processBatch env uid n [] st pc = (Inr (), st, pc + length ([]::IBulkCallQueue list))
      \<and> length ([]::nat list) = length ([]::IBulkCallQueue list)
      \<and> timeline (trace st) = timeline (trace st) @ map Inl ([]::nat list)"
    by simp
  then show ?case by blast
next
  case (Cons c rest)
  obtain r where r: "dispatch env (Suc (ticks st)) (formatPhoneNumber (phone c)) (name c) uid
      (city c, email c, notes' c) = Inr r"
    using dp by blast
  let ?S3 = "st\<lparr>store := put (stamp (settled (markProcessing c (clock st)) r)
                                   (clock st + dispatchMs env (Suc (ticks st)))) (store st),
           clock := clock st + dispatchMs env (Suc (ticks st)),
           ticks := ticks st + 3,
           trace := trace st @
             [Saved (markProcessing c (clock st)),
              Dispatched (clock st) (formatPhoneNumber (phone c)) (name c) uid
                (city c, email c, notes' c),
              Saved (settled (markProcessing c (clock st)) r)]\<rparr>"
  have "processCall env uid n c st pc = (Inr (), pace (Suc pc) n ?S3, Suc pc)"
    using processCall_normal [OF _ r] sv by blast
  then have p: "processCall env uid n c st pc = (Inr (), ?S3, Suc pc)"
    using Cons.prems by (simp add: pace_def)
  have t3: "timeline (trace ?S3) = timeline (trace st) @ [Inl (clock st)]"
    by (simp add: timeline_append)
  have "n \<le> Suc pc" using Cons.prems by simp
  from Cons.IH [OF this, of ?S3]
  obtain st' ts where ih: "processBatch env uid n rest ?S3 (Suc pc) = (Inr (), st', Suc pc + length rest)"
    "length ts = length rest" "timeline (trace st') = timeline (trace ?S3) @ map Inl ts"
    by blast
  have "processBatch env uid n (c # rest) st pc = (Inr (), st', pc + length (c # rest))
      \<and> length (clock st # ts) = length (c # rest)
      \<and> timeline (trace st') = timeline (trace st) @ map Inl (clock st # ts)"
    using p ih t3 by simp
  then show ?case by blast
qed

text \<open>
  C2 does not hold of the code. The processor is meant to pace the calls of every fetched
  batch: it awaits the delay of two seconds after each entry except the last one of the
  batch (``Process calls with delay between each'', ``Delay before next call to avoid
  rate limiting''). The guard of the delay compares \<open>processedCount\<close>, which counts the
  entries of the whole run and is never reset, with the length of the current batch. In
  the first batch the two agree (\<open>first_batch_paced\<close>); in every later batch no delay is
  awaited (\<open>batch_unpaced\<close>). With seven pending entries, a working store and a
  dispatcher that answers at once, the five calls of the first batch start two seconds
  apart, and after the pause of one second between the batches the sixth and the seventh
  call start at the same instant, with no delay between them: the timeline of the second
  batch is not the paced one, and the seven calls are made within nine seconds, not
  twelve.
\<close>

theorem run_of_seven_unpaced:
  "(case processCallQueue acceptingEnv ''U''
          (sampleState
            [sampleEntry 1 ''U'' ''9876543210'' pending 0, sampleEntry 2 ''U'' ''9876543211'' pending 0,
             sampleEntry 3 ''U'' ''9876543212'' pending 0, sampleEntry 4 ''U'' ''9876543213'' pending 0,
             sampleEntry 5 ''U'' ''9876543214'' pending 0, sampleEntry 6 ''U'' ''9876543215'' pending 0,
             sampleEntry 7 ''U'' ''9876543216'' pending 0])
    of (l, s) \<Rightarrow> (l, map status (store s), timeline (trace s)))
   = (ProcessingComplete,
      [completed, completed, completed, completed, completed, completed, completed],
      paced [0, 2000, 4000, 6000, 8000] @ [Inr 1000] @ [Inl 9000, Inl 9000] @ [Inr 1000])
   \<and> paced [0, 2000, 4000, 6000, 8000]
       = [Inl 0, Inr 2000, Inl 2000, Inr 2000, Inl 4000, Inr 2000, Inl 6000, Inr 2000, Inl 8000]
   \<and> (\<forall>t t'. [Inl 9000, Inl 9000] \<noteq> paced [t, t'])
   \<and> \<not> (7 - 1) * CALL_DELAY \<le> 9000 - 0"
  by (simp add: accepting_run_defs)

end
